theory Spec2Isabelle
  imports Main
begin

section \<open>Abstract syntax tree (ast.h)\<close>

text \<open>
  A \<^verbatim>\<open>double\<close> is never inspected or compared by the lexer or the parser: it is
  produced by \<^verbatim>\<open>strtod\<close> and stored. It is therefore represented symbolically, by
  the text that was handed to \<^verbatim>\<open>strtod\<close>; \<open>Zero_double\<close> is the value of the
  zero-initialised static \<^verbatim>\<open>NumVal\<close>.
\<close>

datatype double = Zero_double | strtod string

datatype ExprAST =
    NumberExprAST double
  | VariableExprAST string
  | BinaryExprAST char ExprAST ExprAST
  | CallExprAST string "ExprAST list"

datatype PrototypeAST = PrototypeAST string "string list"

datatype FunctionAST = FunctionAST PrototypeAST ExprAST

text \<open>The classes of ast.h, as recorded when \<^verbatim>\<open>std::make_unique\<close> constructs an object.\<close>

datatype node_kind =
  NumberNode | VariableNode | BinaryNode | CallNode | PrototypeNode | FunctionNode

section \<open>Program state\<close>

text \<open>
  The globals of lexer.h and parser.h, the unread part of standard input, the lines
  written to standard error, and the objects constructed so far.
\<close>

record state =
  stdin :: string
  LastChar :: int
  IdentifierStr :: string
  NumVal :: double
  CurTok :: int
  BinopPrecedence :: "char \<rightharpoonup> int"
  stderr :: "string list"
  built :: "node_kind list"

section \<open>Lexer (lexer.h)\<close>

definition EOF :: int where "EOF = -1"

definition tok_eof :: int where "tok_eof = -1"
definition tok_def :: int where "tok_def = -2"
definition tok_extern :: int where "tok_extern = -3"
definition tok_identifier :: int where "tok_identifier = -4"
definition tok_number :: int where "tok_number = -5"

text \<open>The character classes of \<^verbatim>\<open><cctype>\<close> in the "C" locale, on \<^verbatim>\<open>int\<close> arguments.\<close>

definition isspace :: "int \<Rightarrow> bool" where
  "isspace c \<longleftrightarrow> c = 32 \<or> (9 \<le> c \<and> c \<le> 13)"

definition isdigit :: "int \<Rightarrow> bool" where
  "isdigit c \<longleftrightarrow> 48 \<le> c \<and> c \<le> 57"

definition isalpha :: "int \<Rightarrow> bool" where
  "isalpha c \<longleftrightarrow> (65 \<le> c \<and> c \<le> 90) \<or> (97 \<le> c \<and> c \<le> 122)"

definition isalnum :: "int \<Rightarrow> bool" where
  "isalnum c \<longleftrightarrow> isalpha c \<or> isdigit c"

definition isascii :: "int \<Rightarrow> bool" where
  "isascii c \<longleftrightarrow> 0 \<le> c \<and> c \<le> 127"

text \<open>\<^verbatim>\<open>getchar()\<close>: the next byte of standard input as a value in 0..255, or EOF.\<close>

definition getchar :: "state \<Rightarrow> int \<times> state" where
  "getchar s = (case stdin s of
      [] \<Rightarrow> (EOF, s)
    | c # cs \<Rightarrow> (of_char c, s\<lparr>stdin := cs\<rparr>))"

text \<open>\<^verbatim>\<open>LastChar = getchar()\<close>\<close>

definition read_LastChar :: "state \<Rightarrow> state" where
  "read_LastChar s = (case getchar s of (c, s') \<Rightarrow> s'\<lparr>LastChar := c\<rparr>)"

text \<open>The number of bytes the lexer has still to look at: the buffered one and the unread ones.\<close>

definition pending :: "state \<Rightarrow> nat" where
  "pending s = length (stdin s) + (if LastChar s = EOF then 0 else 1)"

text \<open>\<^verbatim>\<open>while (isspace(LastChar)) LastChar = getchar();\<close>\<close>

function skip_whitespace :: "state \<Rightarrow> state" where
  "skip_whitespace s =
     (if isspace (LastChar s) then skip_whitespace (read_LastChar s) else s)"
  by pat_completeness auto
termination
  by (relation "measure pending")
     (auto simp: pending_def read_LastChar_def getchar_def isspace_def EOF_def
           split: list.splits)

text \<open>\<^verbatim>\<open>while (isalnum((LastChar = getchar()))) IdentifierStr += LastChar;\<close>\<close>

function identifier_loop :: "state \<Rightarrow> state" where
  "identifier_loop s =
     (let s1 = read_LastChar s in
      if isalnum (LastChar s1)
      then identifier_loop (s1\<lparr>IdentifierStr := IdentifierStr s1 @ [char_of (LastChar s1)]\<rparr>)
      else s1)"
  by pat_completeness auto
termination
  by (relation "measure (\<lambda>s. length (stdin s))")
     (auto simp: read_LastChar_def getchar_def isalnum_def isalpha_def isdigit_def EOF_def
           split: list.splits)

text \<open>
  \<^verbatim>\<open>do { NumStr += LastChar; LastChar = getchar(); }
  while (isdigit(LastChar) || LastChar == '.');\<close>
\<close>

function number_loop :: "string \<Rightarrow> state \<Rightarrow> string \<times> state" where
  "number_loop NumStr s =
     (let NumStr1 = NumStr @ [char_of (LastChar s)];
          s1 = read_LastChar s in
      if isdigit (LastChar s1) \<or> LastChar s1 = of_char CHR ''.''
      then number_loop NumStr1 s1
      else (NumStr1, s1))"
  by pat_completeness auto
termination
  by (relation "measure (\<lambda>(n, s). length (stdin s))")
     (auto simp: read_LastChar_def getchar_def isdigit_def EOF_def split: list.splits)

text \<open>
  \<^verbatim>\<open>do LastChar = getchar();
  while (LastChar != EOF && LastChar != '\n' && LastChar != '\r');\<close>
\<close>

function comment_loop :: "state \<Rightarrow> state" where
  "comment_loop s =
     (let s1 = read_LastChar s in
      if LastChar s1 \<noteq> EOF \<and> LastChar s1 \<noteq> 10 \<and> LastChar s1 \<noteq> 13
      then comment_loop s1
      else s1)"
  by pat_completeness auto
termination
  by (relation "measure (\<lambda>s. length (stdin s))")
     (auto simp: read_LastChar_def getchar_def EOF_def split: list.splits)

declare skip_whitespace.simps [simp del] identifier_loop.simps [simp del]
  number_loop.simps [simp del] comment_loop.simps [simp del]

text \<open>The end of \<^verbatim>\<open>gettok\<close>: the end-of-file check and the single-character token.\<close>

definition gettok_rest :: "state \<Rightarrow> int \<times> state" where
  "gettok_rest s =
     (if LastChar s = EOF then (tok_eof, s)
      else (let thisChar = LastChar s in (thisChar, read_LastChar s)))"

lemma stdin_read_LastChar: "length (stdin (read_LastChar s)) \<le> length (stdin s)"
  by (simp add: read_LastChar_def getchar_def split: list.splits)

lemma stdin_read_LastChar_less:
  "LastChar (read_LastChar s) \<noteq> EOF \<Longrightarrow> length (stdin (read_LastChar s)) < length (stdin s)"
  by (simp add: read_LastChar_def getchar_def split: list.splits)

lemma stdin_skip_whitespace: "length (stdin (skip_whitespace s)) \<le> length (stdin s)"
proof (induction s rule: skip_whitespace.induct)
  case (1 s)
  show ?case
  proof (cases "isspace (LastChar s)")
    case True
    with "1" have "length (stdin (skip_whitespace (read_LastChar s))) \<le> length (stdin (read_LastChar s))"
      by simp
    with True stdin_read_LastChar [of s] show ?thesis
      by (subst skip_whitespace.simps) simp
  next
    case False
    then show ?thesis by (subst skip_whitespace.simps) simp
  qed
qed

lemma stdin_comment_loop: "length (stdin (comment_loop s)) \<le> length (stdin s)"
proof (induction s rule: comment_loop.induct)
  case (1 s)
  show ?case
  proof (cases "LastChar (read_LastChar s) \<noteq> EOF \<and> LastChar (read_LastChar s) \<noteq> 10
                \<and> LastChar (read_LastChar s) \<noteq> 13")
    case True
    with "1" have "length (stdin (comment_loop (read_LastChar s))) \<le> length (stdin (read_LastChar s))"
      by simp
    with True stdin_read_LastChar [of s] show ?thesis
      by (subst comment_loop.simps) (simp add: Let_def)
  next
    case False
    with stdin_read_LastChar [of s] show ?thesis
      by (subst comment_loop.simps) (auto simp add: Let_def)
  qed
qed

lemma stdin_comment_loop_less:
  "LastChar (comment_loop s) \<noteq> EOF \<Longrightarrow> length (stdin (comment_loop s)) < length (stdin s)"
proof -
  assume a: "LastChar (comment_loop s) \<noteq> EOF"
  show ?thesis
  proof (cases "LastChar (read_LastChar s) \<noteq> EOF \<and> LastChar (read_LastChar s) \<noteq> 10
                \<and> LastChar (read_LastChar s) \<noteq> 13")
    case True
    then have "comment_loop s = comment_loop (read_LastChar s)"
      by (subst comment_loop.simps) (simp add: Let_def)
    moreover have "length (stdin (read_LastChar s)) < length (stdin s)"
      using True by (simp add: stdin_read_LastChar_less)
    ultimately show ?thesis
      using stdin_comment_loop [of "read_LastChar s"] by simp
  next
    case False
    then have "comment_loop s = read_LastChar s"
      by (subst comment_loop.simps) (auto simp add: Let_def)
    with a show ?thesis by (simp add: stdin_read_LastChar_less)
  qed
qed

text \<open>\<^verbatim>\<open>gettok\<close>: the next token from standard input.\<close>

function gettok :: "state \<Rightarrow> int \<times> state" where
  "gettok s0 =
     (let s = skip_whitespace s0 in
      if isalpha (LastChar s) then
        (let s1 = identifier_loop (s\<lparr>IdentifierStr := [char_of (LastChar s)]\<rparr>) in
         if IdentifierStr s1 = ''def'' then (tok_def, s1)
         else if IdentifierStr s1 = ''extern'' then (tok_extern, s1)
         else (tok_identifier, s1))
      else if isdigit (LastChar s) \<or> LastChar s = of_char CHR ''.'' then
        (case number_loop [] s of
           (NumStr, s1) \<Rightarrow> (tok_number, s1\<lparr>NumVal := strtod NumStr\<rparr>))
      else if LastChar s = of_char CHR ''#'' then
        (let s1 = comment_loop s in
         if LastChar s1 \<noteq> EOF then gettok s1 else gettok_rest s1)
      else gettok_rest s)"
  by pat_completeness auto
termination
proof (relation "measure (\<lambda>s. length (stdin s))")
  show "wf (measure (\<lambda>s. length (stdin s)))" by simp
next
  fix s0 s s1
  assume a1: "s = skip_whitespace s0" and a2: "s1 = comment_loop s" and a3: "LastChar s1 \<noteq> EOF"
  have "length (stdin (comment_loop s)) < length (stdin s)"
    by (rule stdin_comment_loop_less) (rule a3 [unfolded a2])
  moreover have "length (stdin (skip_whitespace s0)) \<le> length (stdin s0)"
    by (rule stdin_skip_whitespace)
  ultimately have "length (stdin s1) < length (stdin s0)"
    unfolding a2 a1 by (rule less_le_trans)
  then show "(s1, s0) \<in> measure (\<lambda>s. length (stdin s))" by simp
qed

declare gettok.simps [simp del]

subsection \<open>The lexer consumes its input\<close>

lemma of_char_neq_EOF: "(of_char c :: int) \<noteq> EOF"
proof -
  have "(0::int) \<le> of_nat (of_char c :: nat)" by simp
  then have "(0::int) \<le> of_char c" by (simp only: of_nat_of_char)
  then show ?thesis by (simp add: EOF_def)
qed

lemma pending_read_LastChar: "pending (read_LastChar s) \<le> pending s"
  by (auto simp: pending_def read_LastChar_def getchar_def of_char_neq_EOF split: list.splits)

lemma pending_read_LastChar_less:
  "LastChar s \<noteq> EOF \<Longrightarrow> pending (read_LastChar s) < pending s"
  by (auto simp: pending_def read_LastChar_def getchar_def of_char_neq_EOF split: list.splits)

lemma pending_skip_whitespace: "pending (skip_whitespace s) \<le> pending s"
proof (induction s rule: skip_whitespace.induct)
  case (1 s)
  show ?case
  proof (cases "isspace (LastChar s)")
    case True
    with "1" have "pending (skip_whitespace (read_LastChar s)) \<le> pending (read_LastChar s)"
      by simp
    with True pending_read_LastChar [of s] show ?thesis
      by (subst skip_whitespace.simps) simp
  next
    case False
    then show ?thesis by (subst skip_whitespace.simps) simp
  qed
qed

lemma pending_IdentifierStr_update [simp]: "pending (s\<lparr>IdentifierStr := x\<rparr>) = pending s"
  by (simp add: pending_def)

lemma pending_NumVal_update [simp]: "pending (s\<lparr>NumVal := x\<rparr>) = pending s"
  by (simp add: pending_def)

lemma pending_CurTok_update [simp]: "pending (s\<lparr>CurTok := x\<rparr>) = pending s"
  by (simp add: pending_def)

lemma pending_identifier_loop: "pending (identifier_loop s) \<le> pending s"
proof (induction s rule: identifier_loop.induct)
  case (1 s)
  show ?case
  proof (cases "isalnum (LastChar (read_LastChar s))")
    case True
    with "1" [OF refl] pending_read_LastChar [of s] show ?thesis
      by (subst identifier_loop.simps) (simp add: Let_def)
  next
    case False
    with pending_read_LastChar [of s] show ?thesis
      by (subst identifier_loop.simps) (simp add: Let_def)
  qed
qed

lemma pending_identifier_loop_less:
  assumes "LastChar s \<noteq> EOF"
  shows "pending (identifier_loop s) < pending s"
proof (cases "isalnum (LastChar (read_LastChar s))")
  case True
  then have "identifier_loop s = identifier_loop ((read_LastChar s)
      \<lparr>IdentifierStr := IdentifierStr (read_LastChar s) @ [char_of (LastChar (read_LastChar s))]\<rparr>)"
    by (subst identifier_loop.simps) (simp add: Let_def)
  then have "pending (identifier_loop s) \<le> pending (read_LastChar s)"
    using pending_identifier_loop [of "(read_LastChar s)
      \<lparr>IdentifierStr := IdentifierStr (read_LastChar s) @ [char_of (LastChar (read_LastChar s))]\<rparr>"]
    by simp
  with pending_read_LastChar_less [OF assms] show ?thesis by simp
next
  case False
  then have "identifier_loop s = read_LastChar s"
    by (subst identifier_loop.simps) (simp add: Let_def)
  with pending_read_LastChar_less [OF assms] show ?thesis by simp
qed

lemma pending_number_loop: "pending (snd (number_loop n s)) \<le> pending s"
proof (induction n s rule: number_loop.induct)
  case (1 n s)
  show ?case
  proof (cases "isdigit (LastChar (read_LastChar s)) \<or> LastChar (read_LastChar s) = of_char CHR ''.''")
    case True
    with "1" [OF refl refl] pending_read_LastChar [of s] show ?thesis
      by (subst number_loop.simps) (simp add: Let_def)
  next
    case False
    with pending_read_LastChar [of s] show ?thesis
      by (subst number_loop.simps) (simp add: Let_def)
  qed
qed

lemma pending_number_loop_less:
  assumes "LastChar s \<noteq> EOF"
  shows "pending (snd (number_loop n s)) < pending s"
proof (cases "isdigit (LastChar (read_LastChar s)) \<or> LastChar (read_LastChar s) = of_char CHR ''.''")
  case True
  then have "number_loop n s = number_loop (n @ [char_of (LastChar s)]) (read_LastChar s)"
    by (subst number_loop.simps) (simp add: Let_def)
  then have "pending (snd (number_loop n s)) \<le> pending (read_LastChar s)"
    using pending_number_loop [of "n @ [char_of (LastChar s)]" "read_LastChar s"] by simp
  with pending_read_LastChar_less [OF assms] show ?thesis by simp
next
  case False
  then have "number_loop n s = (n @ [char_of (LastChar s)], read_LastChar s)"
    by (subst number_loop.simps) (simp add: Let_def)
  with pending_read_LastChar_less [OF assms] show ?thesis by simp
qed

lemma pending_comment_loop: "pending (comment_loop s) \<le> pending s"
proof (induction s rule: comment_loop.induct)
  case (1 s)
  show ?case
  proof (cases "LastChar (read_LastChar s) \<noteq> EOF \<and> LastChar (read_LastChar s) \<noteq> 10
                \<and> LastChar (read_LastChar s) \<noteq> 13")
    case True
    with "1" [OF refl] pending_read_LastChar [of s] show ?thesis
      by (subst comment_loop.simps) (simp add: Let_def)
  next
    case False
    with pending_read_LastChar [of s] show ?thesis
      by (subst comment_loop.simps) (auto simp add: Let_def)
  qed
qed

lemma pending_comment_loop_less:
  assumes "LastChar s \<noteq> EOF"
  shows "pending (comment_loop s) < pending s"
proof (cases "LastChar (read_LastChar s) \<noteq> EOF \<and> LastChar (read_LastChar s) \<noteq> 10
              \<and> LastChar (read_LastChar s) \<noteq> 13")
  case True
  then have "comment_loop s = comment_loop (read_LastChar s)"
    by (subst comment_loop.simps) (simp add: Let_def)
  then have "pending (comment_loop s) \<le> pending (read_LastChar s)"
    using pending_comment_loop [of "read_LastChar s"] by simp
  with pending_read_LastChar_less [OF assms] show ?thesis by simp
next
  case False
  then have "comment_loop s = read_LastChar s"
    by (subst comment_loop.simps) (auto simp add: Let_def)
  with pending_read_LastChar_less [OF assms] show ?thesis by simp
qed

lemma pending_gettok_rest:
  "pending (snd (gettok_rest s)) \<le> pending s
   \<and> (fst (gettok_rest s) \<noteq> tok_eof \<longrightarrow> pending (snd (gettok_rest s)) < pending s)"
  using pending_read_LastChar_less [of s]
  by (auto simp: gettok_rest_def Let_def)

text \<open>
  A call of \<open>gettok\<close> never gives bytes back, and a token other than end-of-input
  costs at least one byte.
\<close>

lemma pending_gettok:
  "pending (snd (gettok s0)) \<le> pending s0
   \<and> (fst (gettok s0) \<noteq> tok_eof \<longrightarrow> pending (snd (gettok s0)) < pending s0)"
proof (induction s0 rule: gettok.induct)
  case (1 s0)
  define s where "s = skip_whitespace s0"
  have le: "pending s \<le> pending s0"
    unfolding s_def by (rule pending_skip_whitespace)
  consider (ident) "isalpha (LastChar s)"
    | (num) "\<not> isalpha (LastChar s)" "isdigit (LastChar s) \<or> LastChar s = of_char CHR ''.''"
    | (comment) "\<not> isalpha (LastChar s)" "\<not> (isdigit (LastChar s) \<or> LastChar s = of_char CHR ''.'')"
        "LastChar s = of_char CHR ''#''"
    | (other) "\<not> isalpha (LastChar s)" "\<not> (isdigit (LastChar s) \<or> LastChar s = of_char CHR ''.'')"
        "LastChar s \<noteq> of_char CHR ''#''"
    by blast
  then show ?case
  proof cases
    case ident
    then have ne: "LastChar (s\<lparr>IdentifierStr := [char_of (LastChar s)]\<rparr>) \<noteq> EOF"
      by (auto simp: isalpha_def EOF_def)
    have "pending (snd (gettok s0)) < pending s"
      using ident pending_identifier_loop_less [OF ne]
      by (subst gettok.simps) (simp add: Let_def s_def [symmetric])
    with le show ?thesis by simp
  next
    case num
    then have ne: "LastChar s \<noteq> EOF"
      by (auto simp: isdigit_def EOF_def)
    have "pending (snd (gettok s0)) < pending s"
      using num pending_number_loop_less [OF ne, of "[]"]
      by (subst gettok.simps) (simp add: Let_def s_def [symmetric] case_prod_beta)
    with le show ?thesis by simp
  next
    case comment
    then have ne: "LastChar s \<noteq> EOF"
      by (simp add: EOF_def)
    have lt: "pending (comment_loop s) < pending s"
      by (rule pending_comment_loop_less [OF ne])
    show ?thesis
    proof (cases "LastChar (comment_loop s) \<noteq> EOF")
      case True
      have eq: "gettok s0 = gettok (comment_loop s)"
        using comment True by (subst gettok.simps) (simp add: Let_def s_def [symmetric])
      have "pending (snd (gettok (comment_loop s))) \<le> pending (comment_loop s)"
        using "1.IH" [OF s_def comment refl True] by simp
      with lt le eq show ?thesis by simp
    next
      case False
      have eq: "gettok s0 = gettok_rest (comment_loop s)"
        using comment False by (subst gettok.simps) (simp add: Let_def s_def [symmetric])
      with pending_gettok_rest [of "comment_loop s"] lt le show ?thesis by simp
    qed
  next
    case other
    have eq: "gettok s0 = gettok_rest s"
      using other by (subst gettok.simps) (simp add: Let_def s_def [symmetric])
    with pending_gettok_rest [of s] le show ?thesis by auto
  qed
qed

section \<open>Parser (parser.h)\<close>

subsection \<open>Helpers\<close>

text \<open>\<^verbatim>\<open>fprintf(stderr, ...)\<close>: one entry per call.\<close>

definition fprintf_stderr :: "string \<Rightarrow> state \<Rightarrow> state" where
  "fprintf_stderr str s = s\<lparr>stderr := stderr s @ [str]\<rparr>"

text \<open>\<^verbatim>\<open>std::make_unique<T>(...)\<close>: an object of class \<open>k\<close> is constructed.\<close>

definition make_unique :: "node_kind \<Rightarrow> state \<Rightarrow> state" where
  "make_unique k s = s\<lparr>built := built s @ [k]\<rparr>"

definition getNextToken :: "state \<Rightarrow> int \<times> state" where
  "getNextToken s = (case gettok s of (t, s') \<Rightarrow> (t, s'\<lparr>CurTok := t\<rparr>))"

text \<open>
  \<^verbatim>\<open>LogError\<close> and \<^verbatim>\<open>LogErrorP\<close> print the message and return \<^verbatim>\<open>nullptr\<close>; the
  callers below return \<open>None\<close> with the state \<open>LogError\<close> leaves.
\<close>

definition LogError :: "string \<Rightarrow> state \<Rightarrow> state" where
  "LogError str s = fprintf_stderr (''Error: '' @ str @ [CHR 0x0A]) s"

definition ParseNumberExpr :: "state \<Rightarrow> ExprAST option \<times> state" where
  "ParseNumberExpr s =
     (let result = NumberExprAST (NumVal s);
          s1 = make_unique NumberNode s;
          s2 = snd (getNextToken s1)
      in (Some result, s2))"

lemma pending_getNextToken:
  "pending (snd (getNextToken s)) \<le> pending s"
  using pending_gettok [of s] by (simp add: getNextToken_def case_prod_beta)

lemma pending_getNextToken_less:
  "fst (getNextToken s) \<noteq> tok_eof \<Longrightarrow> pending (snd (getNextToken s)) < pending s"
  using pending_gettok [of s] by (simp add: getNextToken_def case_prod_beta)

lemma CurTok_getNextToken: "CurTok (snd (getNextToken s)) = fst (getNextToken s)"
  by (simp add: getNextToken_def case_prod_beta)

subsection \<open>Operator precedence table\<close>

definition BinaryOperatorsInstalled :: "state \<Rightarrow> bool" where
  "BinaryOperatorsInstalled s \<longleftrightarrow> BinopPrecedence s \<noteq> Map.empty"

definition InstallBinaryOperators :: "state \<Rightarrow> state" where
  "InstallBinaryOperators s =
     (if BinaryOperatorsInstalled s then s
      else s\<lparr>BinopPrecedence := (BinopPrecedence s)
              (CHR ''<'' \<mapsto> 10, CHR ''+'' \<mapsto> 20, CHR ''-'' \<mapsto> 20, CHR ''*'' \<mapsto> 40)\<rparr>)"

text \<open>
  \<^verbatim>\<open>BinopPrecedence[key]\<close> as an rvalue: \<^verbatim>\<open>std::map::operator[]\<close> returns the stored
  value, and for a key that is not in the map it first inserts the key with the
  value-initialised \<^verbatim>\<open>int\<close> 0.
\<close>

definition BinopPrecedence_subscript :: "char \<Rightarrow> state \<Rightarrow> int \<times> state" where
  "BinopPrecedence_subscript key s =
     (case BinopPrecedence s key of
        Some v \<Rightarrow> (v, s)
      | None \<Rightarrow> (0, s\<lparr>BinopPrecedence := (BinopPrecedence s)(key \<mapsto> 0)\<rparr>))"

definition GetTokPrecendence :: "state \<Rightarrow> int \<times> state" where
  "GetTokPrecendence s =
     (if \<not> isascii (CurTok s) then (-1, s)
      else if \<not> BinaryOperatorsInstalled s
      then (-2, LogError ''Binary operators are not installed yet.'' s)
      else (case BinopPrecedence_subscript (char_of (CurTok s)) s of
              (tokPrec, s1) \<Rightarrow> if tokPrec \<le> 0 then (-1, s1) else (tokPrec, s1)))"

subsection \<open>Expressions\<close>

text \<open>
  The expression parser is mutually recursive and threads the lexer state through its
  calls, so it is defined with fuel: the first argument bounds the depth of calls and
  loop iterations, and the outer \<open>None\<close> is "out of fuel". The inner option is the
  \<^verbatim>\<open>std::unique_ptr\<close>: \<open>None\<close> is \<^verbatim>\<open>nullptr\<close>. \<open>ParseArgs\<close> is the
  \<^verbatim>\<open>while (true)\<close> loop of \<^verbatim>\<open>ParseIdentifierExpr\<close>, and the recursion of
  \<open>ParseBinOpRHS\<close> on the same floor is its \<^verbatim>\<open>while (true)\<close> loop. Both call sites
  of \<^verbatim>\<open>ParseBinOpRHS\<close> pass a pointer they have checked against \<^verbatim>\<open>nullptr\<close>, so its
  \<open>LHS\<close> is a node. Precedences are at most 40 in a table that
  \<open>InstallBinaryOperators\<close> filled, so \<^verbatim>\<open>tokPrec + 1\<close> is computed on \<open>int\<close>.
\<close>

fun ParsePrimary :: "nat \<Rightarrow> state \<Rightarrow> (ExprAST option \<times> state) option"
  and ParseParenExpr :: "nat \<Rightarrow> state \<Rightarrow> (ExprAST option \<times> state) option"
  and ParseIdentifierExpr :: "nat \<Rightarrow> state \<Rightarrow> (ExprAST option \<times> state) option"
  and ParseArgs :: "nat \<Rightarrow> ExprAST list \<Rightarrow> state \<Rightarrow> (ExprAST list option \<times> state) option"
  and ParseExpression :: "nat \<Rightarrow> state \<Rightarrow> (ExprAST option \<times> state) option"
  and ParseBinOpRHS :: "nat \<Rightarrow> int \<Rightarrow> ExprAST \<Rightarrow> state \<Rightarrow> (ExprAST option \<times> state) option"
where
  "ParsePrimary 0 s = None"
| "ParsePrimary (Suc n) s =
     (if CurTok s = tok_identifier then ParseIdentifierExpr n s
      else if CurTok s = tok_number then Some (ParseNumberExpr s)
      else if CurTok s = of_char CHR ''('' then ParseParenExpr n s
      else Some (None, LogError ''Unknown token when expecting an expression.'' s))"
| "ParseParenExpr 0 s = None"
| "ParseParenExpr (Suc n) s =
     (let s1 = snd (getNextToken s) in
      case ParseExpression n s1 of
        None \<Rightarrow> None
      | Some (None, s2) \<Rightarrow> Some (None, s2)
      | Some (Some expression, s2) \<Rightarrow>
          (if CurTok s2 \<noteq> of_char CHR '')''
           then Some (None, LogError (''expected '' @ [CHR 0x27, CHR '')'', CHR 0x27]) s2)
           else Some (Some expression, snd (getNextToken s2))))"
| "ParseIdentifierExpr 0 s = None"
| "ParseIdentifierExpr (Suc n) s =
     (let idName = IdentifierStr s;
          s1 = snd (getNextToken s) in
      if CurTok s1 \<noteq> of_char CHR ''(''
      then Some (Some (VariableExprAST idName), make_unique VariableNode s1)
      else
        (let s2 = snd (getNextToken s1) in
          (case (if CurTok s2 \<noteq> of_char CHR '')'' then ParseArgs n [] s2
                 else Some (Some [], s2)) of
             None \<Rightarrow> None
           | Some (None, s3) \<Rightarrow> Some (None, s3)
           | Some (Some args, s3) \<Rightarrow>
               (let s4 = snd (getNextToken s3) in
                Some (Some (CallExprAST idName args), make_unique CallNode s4)))))"
| "ParseArgs 0 args s = None"
| "ParseArgs (Suc n) args s =
     (case ParseExpression n s of
        None \<Rightarrow> None
      | Some (None, s1) \<Rightarrow> Some (None, s1)
      | Some (Some arg, s1) \<Rightarrow>
          (let args1 = args @ [arg] in
           if CurTok s1 = of_char CHR '')'' then Some (Some args1, s1)
           else if CurTok s1 \<noteq> of_char CHR '',''
           then Some (None, LogError (''Expected '' @ [CHR 0x27, CHR '')'', CHR 0x27] @ '' or ''
                        @ [CHR 0x27, CHR '','', CHR 0x27] @ '' in argument list'') s1)
           else ParseArgs n args1 (snd (getNextToken s1))))"
| "ParseExpression 0 s = None"
| "ParseExpression (Suc n) s =
     (case ParsePrimary n s of
        None \<Rightarrow> None
      | Some (None, s1) \<Rightarrow> Some (None, s1)
      | Some (Some LHS, s1) \<Rightarrow> ParseBinOpRHS n 0 LHS s1)"
| "ParseBinOpRHS 0 exprPrec LHS s = None"
| "ParseBinOpRHS (Suc n) exprPrec LHS s =
     (case GetTokPrecendence s of (tokPrec, s1) \<Rightarrow>
       (if tokPrec < exprPrec then Some (Some LHS, s1)
        else
          (let binOp = CurTok s1;
               s2 = snd (getNextToken s1) in
            (case ParsePrimary n s2 of
               None \<Rightarrow> None
             | Some (None, s3) \<Rightarrow> Some (None, s3)
             | Some (Some RHS, s3) \<Rightarrow>
                (case GetTokPrecendence s3 of (nextPrec, s4) \<Rightarrow>
                  (if tokPrec < nextPrec then
                     (case ParseBinOpRHS n (tokPrec + 1) RHS s4 of
                        None \<Rightarrow> None
                      | Some (None, s5) \<Rightarrow> Some (None, s5)
                      | Some (Some RHS', s5) \<Rightarrow>
                          ParseBinOpRHS n exprPrec (BinaryExprAST (char_of binOp) LHS RHS')
                            (make_unique BinaryNode s5))
                   else ParseBinOpRHS n exprPrec (BinaryExprAST (char_of binOp) LHS RHS)
                          (make_unique BinaryNode s4)))))))"

subsection \<open>Prototypes, definitions and the top level\<close>

text \<open>\<^verbatim>\<open>while (getNextToken() == tok_identifier) argNames.push_back(IdentifierStr);\<close>\<close>

function argNames_loop :: "string list \<Rightarrow> state \<Rightarrow> string list \<times> state" where
  "argNames_loop argNames s =
     (case getNextToken s of (t, s1) \<Rightarrow>
        if t = tok_identifier then argNames_loop (argNames @ [IdentifierStr s1]) s1
        else (argNames, s1))"
  by pat_completeness auto
termination
proof (relation "measure (\<lambda>(a, s). pending s)")
  show "wf (measure (\<lambda>(a, s). pending s))" by simp
next
  fix argNames :: "string list" and s s1 :: state and t :: int
  assume a: "(t, s1) = getNextToken s" and b: "t = tok_identifier"
  have "fst (getNextToken s) \<noteq> tok_eof"
    unfolding a [symmetric] b by (simp add: tok_identifier_def tok_eof_def)
  then have "pending (snd (getNextToken s)) < pending s"
    by (rule pending_getNextToken_less)
  then have "pending s1 < pending s"
    unfolding a [symmetric] by simp
  then show "((argNames @ [IdentifierStr s1], s1), (argNames, s)) \<in> measure (\<lambda>(a, s). pending s)"
    by simp
qed

declare argNames_loop.simps [simp del]

definition ParsePrototype :: "state \<Rightarrow> PrototypeAST option \<times> state" where
  "ParsePrototype s =
     (if CurTok s \<noteq> tok_identifier
      then (None, LogError ''Expected function name in prototype'' s)
      else
        (let fnName = IdentifierStr s;
             s1 = snd (getNextToken s) in
         if CurTok s1 \<noteq> of_char CHR ''(''
         then (None, LogError (''Expected '' @ [CHR 0x27, CHR ''('', CHR 0x27] @ '' in prototype'') s1)
         else
           (case argNames_loop [] s1 of (argNames, s2) \<Rightarrow>
              if CurTok s2 \<noteq> of_char CHR '')''
              then (None, LogError (''Expected '' @ [CHR 0x27, CHR '')'', CHR 0x27] @ '' in prototype'') s2)
              else
                (let s3 = snd (getNextToken s2) in
                 (Some (PrototypeAST fnName argNames), make_unique PrototypeNode s3)))))"

definition ParseDefinition :: "nat \<Rightarrow> state \<Rightarrow> (FunctionAST option \<times> state) option" where
  "ParseDefinition n s =
     (let s1 = snd (getNextToken s) in
      case ParsePrototype s1 of
        (None, s2) \<Rightarrow> Some (None, s2)
      | (Some prototype, s2) \<Rightarrow>
          (case ParseExpression n s2 of
             None \<Rightarrow> None
           | Some (Some expression, s3) \<Rightarrow>
               Some (Some (FunctionAST prototype expression), make_unique FunctionNode s3)
           | Some (None, s3) \<Rightarrow> Some (None, s3)))"

definition ParseExtern :: "state \<Rightarrow> PrototypeAST option \<times> state" where
  "ParseExtern s = (let s1 = snd (getNextToken s) in ParsePrototype s1)"

definition ParseTopLevelExpr :: "nat \<Rightarrow> state \<Rightarrow> (FunctionAST option \<times> state) option" where
  "ParseTopLevelExpr n s =
     (case ParseExpression n s of
        None \<Rightarrow> None
      | Some (Some expression, s1) \<Rightarrow>
          (let prototype = PrototypeAST [] [];
               s2 = make_unique PrototypeNode s1 in
           Some (Some (FunctionAST prototype expression), make_unique FunctionNode s2))
      | Some (None, s1) \<Rightarrow> Some (None, s1))"

definition HandleDefinition :: "nat \<Rightarrow> state \<Rightarrow> state option" where
  "HandleDefinition n s =
     (case ParseDefinition n s of
        None \<Rightarrow> None
      | Some (Some f, s1) \<Rightarrow> Some (fprintf_stderr (''Parsed a function definition.'' @ [CHR 0x0A]) s1)
      | Some (None, s1) \<Rightarrow> Some (snd (getNextToken s1)))"

definition HandleExtern :: "state \<Rightarrow> state" where
  "HandleExtern s =
     (case ParseExtern s of
        (Some p, s1) \<Rightarrow> fprintf_stderr (''Parsed an extern'' @ [CHR 0x0A]) s1
      | (None, s1) \<Rightarrow> snd (getNextToken s1))"

definition HandleTopLevelExpression :: "nat \<Rightarrow> state \<Rightarrow> state option" where
  "HandleTopLevelExpression n s =
     (case ParseTopLevelExpr n s of
        None \<Rightarrow> None
      | Some (Some f, s1) \<Rightarrow> Some (fprintf_stderr (''Parsed a top-level expr'' @ [CHR 0x0A]) s1)
      | Some (None, s1) \<Rightarrow> Some (snd (getNextToken s1)))"

text \<open>\<^verbatim>\<open>MainLoop\<close>: the fuel bounds the iterations and the depth of each parse.\<close>

fun MainLoop :: "nat \<Rightarrow> state \<Rightarrow> state option" where
  "MainLoop 0 s = None"
| "MainLoop (Suc n) s =
     (let s1 = fprintf_stderr ''ready> '' s in
      if CurTok s1 = tok_eof then Some s1
      else if CurTok s1 = of_char CHR '';'' then MainLoop n (snd (getNextToken s1))
      else if CurTok s1 = tok_def then
        (case HandleDefinition n s1 of None \<Rightarrow> None | Some s2 \<Rightarrow> MainLoop n s2)
      else if CurTok s1 = tok_extern then MainLoop n (HandleExtern s1)
      else
        (case HandleTopLevelExpression n s1 of None \<Rightarrow> None | Some s2 \<Rightarrow> MainLoop n s2))"

subsection \<open>Start of the process\<close>

text \<open>
  The statics as C++ initialises them (\<^verbatim>\<open>LastChar = ' '\<close>, the others zero or empty),
  with \<open>input\<close> on standard input.
\<close>

definition initial_state :: "string \<Rightarrow> state" where
  "initial_state input =
     \<lparr>stdin = input, LastChar = of_char CHR '' '', IdentifierStr = [], NumVal = Zero_double,
      CurTok = 0, BinopPrecedence = Map.empty, stderr = [], built = []\<rparr>"

text \<open>
  Every function of the parser expects \<^verbatim>\<open>CurTok\<close> to be the token to parse:
  \<open>primed\<close> reads the first token, as a caller has to before its first call;
  \<open>installed\<close> is the same after \<^verbatim>\<open>InstallBinaryOperators()\<close>.
\<close>

definition primed :: "string \<Rightarrow> state" where
  "primed input = snd (getNextToken (initial_state input))"

definition installed :: "string \<Rightarrow> state" where
  "installed input = snd (getNextToken (InstallBinaryOperators (initial_state input)))"

section \<open>What a parse leaves unchanged\<close>

subsection \<open>The lexer writes four variables only\<close>

text \<open>
  Whatever does not depend on \<^verbatim>\<open>stdin\<close>, \<^verbatim>\<open>LastChar\<close>, \<^verbatim>\<open>IdentifierStr\<close> and
  \<^verbatim>\<open>NumVal\<close> is the same before and after \<open>gettok\<close>.
\<close>

lemma lexer_frame_loops:
  assumes f1: "\<And>s x. f (s\<lparr>stdin := x\<rparr>) = f s"
    and f2: "\<And>s x. f (s\<lparr>LastChar := x\<rparr>) = f s"
    and f3: "\<And>s x. f (s\<lparr>IdentifierStr := x\<rparr>) = f s"
  shows frame_read_LastChar: "f (read_LastChar s) = f s"
    and frame_skip_whitespace: "f (skip_whitespace s) = f s"
    and frame_identifier_loop: "f (identifier_loop s) = f s"
    and frame_number_loop: "f (snd (number_loop n s)) = f s"
    and frame_comment_loop: "f (comment_loop s) = f s"
    and frame_gettok_rest: "f (snd (gettok_rest s)) = f s"
proof -
  show r: "f (read_LastChar s) = f s" for s
    by (simp add: read_LastChar_def getchar_def f1 f2 split: list.splits)
  show "f (skip_whitespace s) = f s"
  proof (induction s rule: skip_whitespace.induct)
    case (1 s)
    then show ?case by (subst skip_whitespace.simps) (simp add: r)
  qed
  show "f (identifier_loop s) = f s"
  proof (induction s rule: identifier_loop.induct)
    case (1 s)
    then show ?case by (subst identifier_loop.simps) (simp add: r f3 Let_def)
  qed
  show "f (snd (number_loop n s)) = f s"
  proof (induction n s rule: number_loop.induct)
    case (1 n s)
    then show ?case by (subst number_loop.simps) (simp add: r Let_def)
  qed
  show "f (comment_loop s) = f s"
  proof (induction s rule: comment_loop.induct)
    case (1 s)
    then show ?case by (subst comment_loop.simps) (simp add: r Let_def)
  qed
  show "f (snd (gettok_rest s)) = f s"
    by (simp add: gettok_rest_def Let_def r)
qed

lemma frame_gettok:
  assumes f1: "\<And>s x. f (s\<lparr>stdin := x\<rparr>) = f s"
    and f2: "\<And>s x. f (s\<lparr>LastChar := x\<rparr>) = f s"
    and f3: "\<And>s x. f (s\<lparr>IdentifierStr := x\<rparr>) = f s"
    and f4: "\<And>s x. f (s\<lparr>NumVal := x\<rparr>) = f s"
  shows "f (snd (gettok s)) = f s"
proof (induction s rule: gettok.induct)
  case (1 s0)
  note fr = lexer_frame_loops [of f, OF f1 f2 f3]
  show ?case
    using "1.IH" [OF refl _ _ _ refl]
    by (subst gettok.simps) (simp add: Let_def fr f3 f4 case_prod_beta)
qed

lemma frame_getNextToken:
  assumes f1: "\<And>s x. f (s\<lparr>stdin := x\<rparr>) = f s"
    and f2: "\<And>s x. f (s\<lparr>LastChar := x\<rparr>) = f s"
    and f3: "\<And>s x. f (s\<lparr>IdentifierStr := x\<rparr>) = f s"
    and f4: "\<And>s x. f (s\<lparr>NumVal := x\<rparr>) = f s"
    and f5: "\<And>s x. f (s\<lparr>CurTok := x\<rparr>) = f s"
  shows "f (snd (getNextToken s)) = f s"
  by (simp add: getNextToken_def case_prod_beta f5 frame_gettok [of f, OF f1 f2 f3 f4])

lemma BinopPrecedence_getNextToken [simp]:
  "BinopPrecedence (snd (getNextToken s)) = BinopPrecedence s"
  by (rule frame_getNextToken) simp_all

lemma stderr_getNextToken [simp]: "stderr (snd (getNextToken s)) = stderr s"
  by (rule frame_getNextToken) simp_all

lemma built_getNextToken [simp]: "built (snd (getNextToken s)) = built s"
  by (rule frame_getNextToken) simp_all


subsection \<open>Relations that every step of the parser respects\<close>

text \<open>
  \<open>res_rel R s r\<close>: the result \<open>r\<close> of a run from \<open>s\<close>, if the fuel sufficed,
  ends in a state related to \<open>s\<close>. A reflexive and transitive \<open>R\<close> that holds across
  reading a token, constructing an object, writing to standard error and querying a
  precedence holds across every function of the parser.
\<close>

definition res_rel :: "(state \<Rightarrow> state \<Rightarrow> bool) \<Rightarrow> state \<Rightarrow> ('a \<times> state) option \<Rightarrow> bool" where
  "res_rel R s r = (case r of None \<Rightarrow> True | Some (x, s') \<Rightarrow> R s s')"

definition run_rel :: "(state \<Rightarrow> state \<Rightarrow> bool) \<Rightarrow> state \<Rightarrow> state option \<Rightarrow> bool" where
  "run_rel R s r = (case r of None \<Rightarrow> True | Some s' \<Rightarrow> R s s')"

lemma res_rel_simps [simp]: "res_rel R s None" "res_rel R s (Some (x, s')) = R s s'"
  by (simp_all add: res_rel_def)

lemma run_rel_simps [simp]: "run_rel R s None" "run_rel R s (Some s') = R s s'"
  by (simp_all add: run_rel_def)

lemma parser_preserves_aux:
  assumes R_trans: "\<And>a b c. R a b \<Longrightarrow> R b c \<Longrightarrow> R a c"
    and R_tok: "\<And>s. R s (snd (getNextToken s))"
    and R_mk: "\<And>k s. R s (make_unique k s)"
    and R_err: "\<And>m s. R s (fprintf_stderr m s)"
    and R_prec: "\<And>s. R s (snd (GetTokPrecendence s))"
  shows "(\<forall>s. res_rel R s (ParsePrimary n s))
       \<and> (\<forall>s. res_rel R s (ParseParenExpr n s))
       \<and> (\<forall>s. res_rel R s (ParseIdentifierExpr n s))
       \<and> (\<forall>s args. res_rel R s (ParseArgs n args s))
       \<and> (\<forall>s. res_rel R s (ParseExpression n s))
       \<and> (\<forall>s p l. res_rel R s (ParseBinOpRHS n p l s))"
proof (induction n)
  case 0
  show ?case by simp
next
  case (Suc n)
  then have P: "\<And>s. res_rel R s (ParsePrimary n s)"
    and Pa: "\<And>s. res_rel R s (ParseParenExpr n s)"
    and I: "\<And>s. res_rel R s (ParseIdentifierExpr n s)"
    and A: "\<And>s args. res_rel R s (ParseArgs n args s)"
    and E: "\<And>s. res_rel R s (ParseExpression n s)"
    and B: "\<And>s p l. res_rel R s (ParseBinOpRHS n p l s)"
    by blast+
  have R_log: "R s (LogError m s)" for s m
    by (simp add: LogError_def R_err)
  have tr: "res_rel R s r" if "R s s1" "res_rel R s1 r" for s s1 and r :: "('x \<times> state) option"
    using that R_trans by (cases r) (auto simp: res_rel_def)
  have c1: "res_rel R s (ParsePrimary (Suc n) s)" for s
    using I [of s] Pa [of s] R_log R_tok [of "make_unique NumberNode s"] R_mk [of s NumberNode]
    by (auto simp: ParseNumberExpr_def Let_def; blast intro: R_trans)
  have c2: "res_rel R s (ParseParenExpr (Suc n) s)" for s
    using E [of "snd (getNextToken s)"] R_tok [of s] R_tok R_log
    by (auto simp: Let_def split: option.splits; blast intro: R_trans)
  have c3: "res_rel R s (ParseIdentifierExpr (Suc n) s)" for s
  proof -
    define s1 where "s1 = snd (getNextToken s)"
    define s2 where "s2 = snd (getNextToken s1)"
    have r1: "R s s1" and r2: "R s1 s2" unfolding s1_def s2_def by (rule R_tok)+
    have r02: "R s s2" using r1 r2 by (rule R_trans)
    show ?thesis
    proof (cases "CurTok s1 \<noteq> of_char CHR ''(''")
      case True
      then show ?thesis using r1 R_mk [of s1 VariableNode]
        by (auto simp: Let_def s1_def [symmetric]; blast intro: R_trans)
    next
      case False
      show ?thesis
      proof (cases "CurTok s2 \<noteq> of_char CHR '')''")
        case True
        with False tr [OF r02 A [of s2 "[]"]] R_tok R_mk show ?thesis
          by (auto simp: Let_def s1_def [symmetric] s2_def [symmetric] split: option.splits;
              blast intro: R_trans)
      next
        case F2: False
        have "R s2 (make_unique CallNode (snd (getNextToken s2)))"
          using R_tok [of s2] R_mk by (blast intro: R_trans)
        with False F2 r02 show ?thesis
          by (auto simp: Let_def s1_def [symmetric] s2_def [symmetric]; blast intro: R_trans)
      qed
    qed
  qed
  have c4: "res_rel R s (ParseArgs (Suc n) args s)" for s args
    using E [of s] A R_log R_tok
    by (auto simp: Let_def split: option.splits; blast intro: R_trans tr)
  have c5: "res_rel R s (ParseExpression (Suc n) s)" for s
    using P [of s] B
    by (auto simp: Let_def split: option.splits; blast intro: R_trans tr)
  have c6: "res_rel R s (ParseBinOpRHS (Suc n) p l s)" for s p l
  proof -
    obtain tokPrec s1 where g1: "GetTokPrecendence s = (tokPrec, s1)"
      by (cases "GetTokPrecendence s")
    have r1: "R s s1" using R_prec [of s] g1 by simp
    define s2 where "s2 = snd (getNextToken s1)"
    have r2: "R s s2" unfolding s2_def using r1 R_tok by (rule R_trans)
    show ?thesis
    proof (cases "tokPrec < p")
      case True
      with g1 r1 show ?thesis by simp
    next
      case False
      show ?thesis
      proof (cases "ParsePrimary n s2")
        case None
        with g1 False show ?thesis by (simp add: Let_def s2_def [symmetric])
      next
        case (Some a)
        obtain r s3 where a: "a = (r, s3)" by (cases a)
        have r3: "R s s3" using P [of s2] Some a r2 by (auto intro: R_trans)
        show ?thesis
        proof (cases r)
          case None
          with g1 False Some a r3 show ?thesis by (simp add: Let_def s2_def [symmetric])
        next
          case (Some RHS)
          obtain nextPrec s4 where g2: "GetTokPrecendence s3 = (nextPrec, s4)"
            by (cases "GetTokPrecendence s3")
          have r4: "R s s4" using R_prec [of s3] g2 r3 by (auto intro: R_trans)
          have r4m: "R s (make_unique BinaryNode s4)" using r4 R_mk by (rule R_trans)
          show ?thesis
          proof (cases "tokPrec < nextPrec")
            case True
            have "res_rel R s (case ParseBinOpRHS n (tokPrec + 1) RHS s4 of
                  None \<Rightarrow> None
                | Some (None, s5) \<Rightarrow> Some (None, s5)
                | Some (Some RHS', s5) \<Rightarrow>
                    ParseBinOpRHS n p (BinaryExprAST (char_of (CurTok s1)) l RHS')
                      (make_unique BinaryNode s5))"
              using tr [OF r4 B [of s4 "tokPrec + 1" RHS]] B R_mk
              by (auto split: option.splits; blast intro: R_trans tr)
            with g1 False \<open>ParsePrimary n s2 = Some a\<close> a Some g2 True show ?thesis
              by (simp add: Let_def s2_def [symmetric])
          next
            case F: False
            with g1 False \<open>ParsePrimary n s2 = Some a\<close> a Some g2 tr [OF r4m B] show ?thesis
              by (simp add: Let_def s2_def [symmetric])
          qed
        qed
      qed
    qed
  qed
  from c1 c2 c3 c4 c5 c6 show ?case by blast
qed

lemma parser_preserves:
  assumes "\<And>a b c. R a b \<Longrightarrow> R b c \<Longrightarrow> R a c"
    and "\<And>s. R s (snd (getNextToken s))"
    and "\<And>k s. R s (make_unique k s)"
    and "\<And>m s. R s (fprintf_stderr m s)"
    and "\<And>s. R s (snd (GetTokPrecendence s))"
  shows "res_rel R s (ParsePrimary n s)"
    and "res_rel R s (ParseParenExpr n s)"
    and "res_rel R s (ParseIdentifierExpr n s)"
    and "res_rel R s (ParseArgs n args s)"
    and "res_rel R s (ParseExpression n s)"
    and "res_rel R s (ParseBinOpRHS n p l s)"
proof -
  have "(\<forall>s. res_rel R s (ParsePrimary n s))
       \<and> (\<forall>s. res_rel R s (ParseParenExpr n s))
       \<and> (\<forall>s. res_rel R s (ParseIdentifierExpr n s))
       \<and> (\<forall>s args. res_rel R s (ParseArgs n args s))
       \<and> (\<forall>s. res_rel R s (ParseExpression n s))
       \<and> (\<forall>s p l. res_rel R s (ParseBinOpRHS n p l s))"
    by (rule parser_preserves_aux; fact)
  then show "res_rel R s (ParsePrimary n s)"
    and "res_rel R s (ParseParenExpr n s)"
    and "res_rel R s (ParseIdentifierExpr n s)"
    and "res_rel R s (ParseArgs n args s)"
    and "res_rel R s (ParseExpression n s)"
    and "res_rel R s (ParseBinOpRHS n p l s)"
    by blast+
qed

lemma argNames_loop_preserves:
  assumes R_refl: "\<And>s. R s s"
    and R_trans: "\<And>a b c. R a b \<Longrightarrow> R b c \<Longrightarrow> R a c"
    and R_tok: "\<And>s. R s (snd (getNextToken s))"
  shows "R s (snd (argNames_loop a s))"
proof (induction a s rule: argNames_loop.induct)
  case (1 argNames s)
  obtain t s1 where g: "getNextToken s = (t, s1)" by (cases "getNextToken s")
  have r1: "R s s1" using R_tok [of s] g by simp
  show ?case
  proof (cases "t = tok_identifier")
    case True
    with "1" [OF g [symmetric]] g r1 show ?thesis
      by (subst argNames_loop.simps) (auto intro: R_trans)
  next
    case False
    with g r1 show ?thesis by (subst argNames_loop.simps) simp
  qed
qed

lemma toplevel_preserves:
  assumes R_refl: "\<And>s. R s s"
    and R_trans: "\<And>a b c. R a b \<Longrightarrow> R b c \<Longrightarrow> R a c"
    and R_tok: "\<And>s. R s (snd (getNextToken s))"
    and R_mk: "\<And>k s. R s (make_unique k s)"
    and R_err: "\<And>m s. R s (fprintf_stderr m s)"
    and R_prec: "\<And>s. R s (snd (GetTokPrecendence s))"
  shows ParsePrototype_preserves: "R s (snd (ParsePrototype s))"
    and ParseDefinition_preserves: "res_rel R s (ParseDefinition n s)"
    and ParseExtern_preserves: "R s (snd (ParseExtern s))"
    and ParseTopLevelExpr_preserves: "res_rel R s (ParseTopLevelExpr n s)"
    and HandleDefinition_preserves: "run_rel R s (HandleDefinition n s)"
    and HandleExtern_preserves: "R s (HandleExtern s)"
    and HandleTopLevelExpression_preserves: "run_rel R s (HandleTopLevelExpression n s)"
proof -
  have R_log: "R s (LogError m s)" for s m
    by (simp add: LogError_def R_err)
  have E: "res_rel R s (ParseExpression n s)" for s n
    by (rule parser_preserves(5); fact)
  have L: "R s (snd (argNames_loop a s))" for s a
    by (rule argNames_loop_preserves; fact)
  have tr: "res_rel R s r" if "R s s1" "res_rel R s1 r" for s s1 and r :: "('x \<times> state) option"
    using that R_trans by (cases r) (auto simp: res_rel_def)
  show proto: "R s (snd (ParsePrototype s))" for s
  proof -
    define s1 where "s1 = snd (getNextToken s)"
    define s2 where "s2 = snd (argNames_loop [] s1)"
    define s3 where "s3 = snd (getNextToken s2)"
    have r1: "R s s1" unfolding s1_def by (rule R_tok)
    have r2: "R s s2" using r1 L [of s1 "[]"] unfolding s2_def by (rule R_trans)
    have r3: "R s s3" using r2 R_tok [of s2] unfolding s3_def by (rule R_trans)
    have "R s (LogError m s1)" "R s (LogError m s2)" "R s (make_unique k s3)" for m k
      using r1 r2 r3 R_log R_mk by (blast intro: R_trans)+
    then show ?thesis
      by (simp add: ParsePrototype_def Let_def case_prod_beta R_log
            s1_def [symmetric] s2_def [symmetric] s3_def [symmetric])
  qed
  show pdef: "res_rel R s (ParseDefinition n s)" for s
  proof -
    define s1 where "s1 = snd (getNextToken s)"
    obtain p s2 where g: "ParsePrototype s1 = (p, s2)" by (cases "ParsePrototype s1")
    have r1: "R s s1" unfolding s1_def by (rule R_tok)
    have r2: "R s s2" using r1 proto [of s1] g by (auto intro: R_trans)
    have "res_rel R s (case ParseExpression n s2 of
             None \<Rightarrow> None
           | Some (Some expression, s3) \<Rightarrow>
               Some (Some (FunctionAST q expression), make_unique FunctionNode s3)
           | Some (None, s3) \<Rightarrow> Some (None, s3))" for q
    proof (cases "ParseExpression n s2")
      case None
      then show ?thesis by simp
    next
      case (Some a)
      obtain e s3 where a: "a = (e, s3)" by (cases a)
      have r3: "R s s3" using E [of s2 n] Some a r2 by (auto intro: R_trans)
      then have "R s (make_unique FunctionNode s3)" using R_mk by (rule R_trans)
      with r3 Some a show ?thesis by (cases e) simp_all
    qed
    with r2 g show ?thesis
      by (cases p) (simp_all add: ParseDefinition_def Let_def s1_def [symmetric])
  qed
  show pext: "R s (snd (ParseExtern s))" for s
    using R_tok [of s] proto [of "snd (getNextToken s)"]
    by (simp add: ParseExtern_def Let_def) (rule R_trans)
  show ptop: "res_rel R s (ParseTopLevelExpr n s)" for s
  proof (cases "ParseExpression n s")
    case None
    then show ?thesis by (simp add: ParseTopLevelExpr_def)
  next
    case (Some a)
    obtain e s1 where a: "a = (e, s1)" by (cases a)
    have r1: "R s s1" using E [of s n] Some a by simp
    then have "R s (make_unique PrototypeNode s1)" using R_mk by (rule R_trans)
    then have "R s (make_unique FunctionNode (make_unique PrototypeNode s1))"
      using R_mk by (rule R_trans)
    with r1 Some a show ?thesis
      by (cases e) (simp_all add: ParseTopLevelExpr_def Let_def)
  qed
  show "run_rel R s (HandleDefinition n s)"
  proof (cases "ParseDefinition n s")
    case None
    then show ?thesis by (simp add: HandleDefinition_def)
  next
    case (Some a)
    obtain e s1 where a: "a = (e, s1)" by (cases a)
    have r1: "R s s1" using pdef [of s] Some a by simp
    then have "R s (fprintf_stderr m s1)" "R s (snd (getNextToken s1))" for m
      using R_err R_tok by (blast intro: R_trans)+
    with Some a show ?thesis
      by (cases e) (simp_all add: HandleDefinition_def)
  qed
  show "R s (HandleExtern s)"
  proof -
    obtain e s1 where g: "ParseExtern s = (e, s1)" by (cases "ParseExtern s")
    have r1: "R s s1" using pext [of s] g by simp
    then have "R s (fprintf_stderr m s1)" "R s (snd (getNextToken s1))" for m
      using R_err R_tok by (blast intro: R_trans)+
    with g show ?thesis
      by (cases e) (simp_all add: HandleExtern_def)
  qed
  show "run_rel R s (HandleTopLevelExpression n s)"
  proof (cases "ParseTopLevelExpr n s")
    case None
    then show ?thesis by (simp add: HandleTopLevelExpression_def)
  next
    case (Some a)
    obtain e s1 where a: "a = (e, s1)" by (cases a)
    have r1: "R s s1" using ptop [of s] Some a by simp
    then have "R s (fprintf_stderr m s1)" "R s (snd (getNextToken s1))" for m
      using R_err R_tok by (blast intro: R_trans)+
    with Some a show ?thesis
      by (cases e) (simp_all add: HandleTopLevelExpression_def)
  qed
qed


lemma MainLoop_preserves:
  assumes R_refl: "\<And>s. R s s"
    and R_trans: "\<And>a b c. R a b \<Longrightarrow> R b c \<Longrightarrow> R a c"
    and R_tok: "\<And>s. R s (snd (getNextToken s))"
    and R_mk: "\<And>k s. R s (make_unique k s)"
    and R_err: "\<And>m s. R s (fprintf_stderr m s)"
    and R_prec: "\<And>s. R s (snd (GetTokPrecendence s))"
  shows "run_rel R s (MainLoop n s)"
proof (induction n arbitrary: s)
  case 0
  show ?case by simp
next
  case (Suc n)
  have H5: "run_rel R s (HandleDefinition n s)" for s n
    by (rule HandleDefinition_preserves; fact)
  have H6: "R s (HandleExtern s)" for s
    by (rule HandleExtern_preserves; fact)
  have H7: "run_rel R s (HandleTopLevelExpression n s)" for s n
    by (rule HandleTopLevelExpression_preserves; fact)
  have tr: "run_rel R s r" if "R s s1" "run_rel R s1 r" for s s1 r
    using that R_trans by (cases r) (auto simp: run_rel_def)
  define s1 where "s1 = fprintf_stderr ''ready> '' s"
  have r1: "R s s1" unfolding s1_def by (rule R_err)
  have "run_rel R s1 (MainLoop n (snd (getNextToken s1)))"
    using R_tok Suc.IH by (rule tr)
  moreover have "run_rel R s1 (case HandleDefinition n s1 of None \<Rightarrow> None | Some s2 \<Rightarrow> MainLoop n s2)"
    using H5 [of s1 n] Suc.IH by (cases "HandleDefinition n s1") (simp_all add: tr)
  moreover have "run_rel R s1 (MainLoop n (HandleExtern s1))"
    using H6 [of s1] Suc.IH by (rule tr)
  moreover have "run_rel R s1 (case HandleTopLevelExpression n s1 of None \<Rightarrow> None | Some s2 \<Rightarrow> MainLoop n s2)"
    using H7 [of s1 n] Suc.IH by (cases "HandleTopLevelExpression n s1") (simp_all add: tr)
  ultimately have "run_rel R s1 (MainLoop (Suc n) s)"
    using R_refl [of s1] by (simp add: Let_def s1_def [symmetric])
  with r1 show ?case by (rule tr)
qed

section \<open>Evaluation on concrete inputs\<close>

text \<open>
  The equations that run the lexer and the parser on a given input. The loops of the
  lexer are unfolded only here, on states whose tests all evaluate.
\<close>

lemmas lexer_eval =
  skip_whitespace.simps identifier_loop.simps number_loop.simps comment_loop.simps
  gettok.simps gettok_rest_def read_LastChar_def getchar_def isspace_def isalpha_def
  isdigit_def isalnum_def EOF_def tok_eof_def tok_def_def tok_extern_def
  tok_identifier_def tok_number_def Let_def char_of_def

lemmas parser_eval =
  getNextToken_def LogError_def fprintf_stderr_def make_unique_def ParseNumberExpr_def
  BinaryOperatorsInstalled_def InstallBinaryOperators_def BinopPrecedence_subscript_def
  GetTokPrecendence_def isascii_def ParsePrototype_def ParseDefinition_def ParseExtern_def
  ParseTopLevelExpr_def argNames_loop.simps initial_state_def primed_def installed_def
  numeral_eq_Suc

section \<open>Shapes of parsed trees\<close>

text \<open>
  C1. On the input \<^verbatim>\<open>1+2*3\<close>, with the precedence table installed and the first token
  read, \<open>ParseExpression\<close> returns the tree
  \<^verbatim>\<open>BinaryExprAST{'+', 1, BinaryExprAST{'*', 2, 3}}\<close>: multiplication binds tighter
  than addition. Four units of fuel are enough, and more change nothing; the whole input
  is consumed and nothing is written to standard error.
\<close>

theorem precedence_mul_over_add:
  "\<exists>s'. ParseExpression (4 + n) (installed ''1+2*3'') =
          Some (Some (BinaryExprAST CHR ''+'' (NumberExprAST (strtod ''1''))
                        (BinaryExprAST CHR ''*'' (NumberExprAST (strtod ''2''))
                                                 (NumberExprAST (strtod ''3'')))), s')
        \<and> CurTok s' = tok_eof \<and> stderr s' = []"
  by (simp add: lexer_eval parser_eval)

text \<open>
  C2. On the input \<^verbatim>\<open>1-2-3\<close>, with the precedence table installed,
  \<open>ParseExpression\<close> returns \<^verbatim>\<open>BinaryExprAST{'-', BinaryExprAST{'-', 1, 2}, 3}\<close>:
  operators of equal precedence associate to the left. The first \<^verbatim>\<open>-\<close> node is built
  before the literal 3 is read: the equal precedence of the second \<^verbatim>\<open>-\<close> does not
  start the recursive parse of the right-hand side.
\<close>

theorem equal_precedence_left_assoc:
  "\<exists>s'. ParseExpression (4 + n) (installed ''1-2-3'') =
          Some (Some (BinaryExprAST CHR ''-''
                        (BinaryExprAST CHR ''-'' (NumberExprAST (strtod ''1''))
                                                 (NumberExprAST (strtod ''2'')))
                        (NumberExprAST (strtod ''3''))), s')
        \<and> built s' = [NumberNode, NumberNode, BinaryNode, NumberNode, BinaryNode]
        \<and> CurTok s' = tok_eof \<and> stderr s' = []"
  by (simp add: lexer_eval parser_eval)

text \<open>
  C5. On the input \<^verbatim>\<open>def foo(a b) a+b\<close>, with the precedence table installed and
  \<^verbatim>\<open>def\<close> as the current token, \<open>ParseDefinition\<close> returns
  \<^verbatim>\<open>FunctionAST{PrototypeAST{"foo", ["a","b"]}, BinaryExprAST{'+', a, b}}\<close>, the parameter
  names in the order of the source.
\<close>

theorem definition_shape:
  "\<exists>s'. ParseDefinition (4 + n) (installed ''def foo(a b) a+b'') =
          Some (Some (FunctionAST (PrototypeAST ''foo'' [''a'', ''b''])
                        (BinaryExprAST CHR ''+'' (VariableExprAST ''a'')
                                                 (VariableExprAST ''b''))), s')
        \<and> CurTok s' = tok_eof \<and> stderr s' = []"
  by (simp add: lexer_eval parser_eval)

text \<open>
  C6. On the input \<^verbatim>\<open>foo(\<close>, an unterminated argument list, the parse fails: the
  expression parser, its primary and \<open>ParseIdentifierExpr\<close> all return \<^verbatim>\<open>nullptr\<close>. The
  one line on standard error is the "unknown token" message of \<open>ParsePrimary\<close> (an
  unexpected token, not the uninstalled table), written when the argument expression
  is parsed at end of input, and no object at all, so no \<^verbatim>\<open>CallExprAST\<close>, has been
  constructed when the failure is returned.
\<close>

theorem unterminated_call_fails:
  "\<exists>s'. ParseExpression (6 + n) (installed ''foo('') = Some (None, s')
        \<and> ParsePrimary (5 + n) (installed ''foo('') = Some (None, s')
        \<and> ParseIdentifierExpr (4 + n) (installed ''foo('') = Some (None, s')
        \<and> stderr s' = [''Error: Unknown token when expecting an expression.'' @ [CHR 0x0A]]
        \<and> CallNode \<notin> set (built s') \<and> built s' = []"
  by (simp add: lexer_eval parser_eval)

section \<open>The precedence table\<close>

text \<open>
  \<open>table_extends m m'\<close>: \<open>m'\<close> has every entry of \<open>m\<close>, unchanged, and any further key
  of \<open>m'\<close> holds 0.
\<close>

definition table_extends :: "(char \<rightharpoonup> int) \<Rightarrow> (char \<rightharpoonup> int) \<Rightarrow> bool" where
  "table_extends m m' \<longleftrightarrow> (\<forall>c. m' c = m c \<or> (m c = None \<and> m' c = Some 0))"

lemma table_extends_refl: "table_extends m m"
  by (simp add: table_extends_def)

lemma table_extends_trans: "table_extends a b \<Longrightarrow> table_extends b c \<Longrightarrow> table_extends a c"
  unfolding table_extends_def by metis

lemma table_extends_GetTokPrecendence:
  "table_extends (BinopPrecedence s) (BinopPrecedence (snd (GetTokPrecendence s)))"
  by (auto simp: table_extends_def GetTokPrecendence_def BinopPrecedence_subscript_def
        LogError_def fprintf_stderr_def split: option.splits)

lemma table_extends_steps:
  "table_extends (BinopPrecedence s) (BinopPrecedence (snd (getNextToken s)))"
  "table_extends (BinopPrecedence s) (BinopPrecedence (make_unique k s))"
  "table_extends (BinopPrecedence s) (BinopPrecedence (fprintf_stderr m s))"
  by (simp_all add: table_extends_refl make_unique_def fprintf_stderr_def)

text \<open>
  C3, as the code has it. Once the operators are installed, no operation removes an
  entry of the precedence table or changes its value, reading a token leaves the table
  as it is, and \<open>InstallBinaryOperators\<close> does nothing. A precedence query is not
  read-only, though: with the operators installed and an ASCII current token that is not
  a key, \<^verbatim>\<open>BinopPrecedence[CurTok]\<close> inserts exactly that key with the value 0, and in
  every other case the query leaves the table as it is. The same happens to the query
  that \<open>ParseBinOpRHS\<close> makes. So across a query, and across any parse and the whole
  main loop, the table only gains entries whose value is 0.
\<close>

theorem table_gains_only_zero_entries:
  "BinopPrecedence (snd (GetTokPrecendence s)) =
     (if BinaryOperatorsInstalled s \<and> isascii (CurTok s)
         \<and> BinopPrecedence s (char_of (CurTok s)) = None
      then (BinopPrecedence s)(char_of (CurTok s) \<mapsto> 0)
      else BinopPrecedence s)
   \<and> (BinaryOperatorsInstalled s \<and> isascii (CurTok s)
        \<and> BinopPrecedence s (char_of (CurTok s)) = None \<and> 0 \<le> exprPrec \<longrightarrow>
        ParseBinOpRHS (Suc n) exprPrec LHS s =
          Some (Some LHS, s\<lparr>BinopPrecedence := (BinopPrecedence s)(char_of (CurTok s) \<mapsto> 0)\<rparr>))
   \<and> table_extends (BinopPrecedence s) (BinopPrecedence (snd (GetTokPrecendence s)))
   \<and> BinopPrecedence (snd (getNextToken s)) = BinopPrecedence s
   \<and> (BinaryOperatorsInstalled s \<longrightarrow> InstallBinaryOperators s = s)
   \<and> (\<forall>r s'. ParseExpression n s = Some (r, s') \<longrightarrow>
         table_extends (BinopPrecedence s) (BinopPrecedence s'))
   \<and> (\<forall>r s'. ParseDefinition n s = Some (r, s') \<longrightarrow>
         table_extends (BinopPrecedence s) (BinopPrecedence s'))
   \<and> (\<forall>r s'. ParseTopLevelExpr n s = Some (r, s') \<longrightarrow>
         table_extends (BinopPrecedence s) (BinopPrecedence s'))
   \<and> table_extends (BinopPrecedence s) (BinopPrecedence (snd (ParseExtern s)))
   \<and> (\<forall>s'. MainLoop n s = Some s' \<longrightarrow>
         table_extends (BinopPrecedence s) (BinopPrecedence s'))"
proof -
  let ?R = "\<lambda>s s'. table_extends (BinopPrecedence s) (BinopPrecedence s')"
  note st = table_extends_refl table_extends_trans table_extends_steps
    table_extends_GetTokPrecendence
  have q: "BinopPrecedence (snd (GetTokPrecendence s)) =
     (if BinaryOperatorsInstalled s \<and> isascii (CurTok s)
         \<and> BinopPrecedence s (char_of (CurTok s)) = None
      then (BinopPrecedence s)(char_of (CurTok s) \<mapsto> 0)
      else BinopPrecedence s)"
    by (auto simp: GetTokPrecendence_def BinopPrecedence_subscript_def LogError_def
          fprintf_stderr_def split: option.splits)
  have b: "ParseBinOpRHS (Suc n) exprPrec LHS s =
          Some (Some LHS, s\<lparr>BinopPrecedence := (BinopPrecedence s)(char_of (CurTok s) \<mapsto> 0)\<rparr>)"
    if "BinaryOperatorsInstalled s \<and> isascii (CurTok s)
        \<and> BinopPrecedence s (char_of (CurTok s)) = None \<and> 0 \<le> exprPrec"
  proof -
    from that have "GetTokPrecendence s =
        (-1, s\<lparr>BinopPrecedence := (BinopPrecedence s)(char_of (CurTok s) \<mapsto> 0)\<rparr>)"
      by (simp add: GetTokPrecendence_def BinopPrecedence_subscript_def)
    with that show ?thesis by simp
  qed
  have "res_rel ?R s (ParseExpression n s)"
    by (rule parser_preserves(5)) (blast intro: st)+
  moreover have "res_rel ?R s (ParseDefinition n s)"
    by (rule ParseDefinition_preserves) (blast intro: st)+
  moreover have "res_rel ?R s (ParseTopLevelExpr n s)"
    by (rule ParseTopLevelExpr_preserves) (blast intro: st)+
  moreover have "?R s (snd (ParseExtern s))"
    by (rule ParseExtern_preserves [of ?R]) (blast intro: st)+
  moreover have "run_rel ?R s (MainLoop n s)"
    by (rule MainLoop_preserves) (blast intro: st)+
  ultimately have rest: "table_extends (BinopPrecedence s) (BinopPrecedence (snd (GetTokPrecendence s)))
   \<and> BinopPrecedence (snd (getNextToken s)) = BinopPrecedence s
   \<and> (BinaryOperatorsInstalled s \<longrightarrow> InstallBinaryOperators s = s)
   \<and> (\<forall>r s'. ParseExpression n s = Some (r, s') \<longrightarrow>
         table_extends (BinopPrecedence s) (BinopPrecedence s'))
   \<and> (\<forall>r s'. ParseDefinition n s = Some (r, s') \<longrightarrow>
         table_extends (BinopPrecedence s) (BinopPrecedence s'))
   \<and> (\<forall>r s'. ParseTopLevelExpr n s = Some (r, s') \<longrightarrow>
         table_extends (BinopPrecedence s) (BinopPrecedence s'))
   \<and> table_extends (BinopPrecedence s) (BinopPrecedence (snd (ParseExtern s)))
   \<and> (\<forall>s'. MainLoop n s = Some s' \<longrightarrow>
         table_extends (BinopPrecedence s) (BinopPrecedence s'))"
    by (auto simp: table_extends_GetTokPrecendence InstallBinaryOperators_def
          res_rel_def run_rel_def split: option.splits)
  from q b rest show ?thesis by blast
qed

theorem table_gains_only_zero_entries_witness:
  "BinaryOperatorsInstalled (installed ''1@2'')
   \<and> InstallBinaryOperators (installed ''1@2'') = installed ''1@2''
   \<and> (\<exists>s'. ParseExpression 2 (installed ''1@2'') = Some (Some (NumberExprAST (strtod ''1'')), s')
          \<and> table_extends (BinopPrecedence (installed ''1@2'')) (BinopPrecedence s')
          \<and> BinopPrecedence s' CHR ''+'' = Some 20)
   \<and> (\<exists>s'. ParseTopLevelExpr 2 (installed ''1@2'') =
            Some (Some (FunctionAST (PrototypeAST [] []) (NumberExprAST (strtod ''1''))), s')
          \<and> table_extends (BinopPrecedence (installed ''1@2'')) (BinopPrecedence s'))
   \<and> (\<exists>s'. ParseDefinition 3 (installed ''def f(x) x@'') =
            Some (Some (FunctionAST (PrototypeAST ''f'' [''x'']) (VariableExprAST ''x'')), s')
          \<and> table_extends (BinopPrecedence (installed ''def f(x) x@'')) (BinopPrecedence s'))
   \<and> (\<exists>s'. MainLoop 5 (installed ''1@2'') = Some s'
          \<and> table_extends (BinopPrecedence (installed ''1@2'')) (BinopPrecedence s')
          \<and> BinopPrecedence s' CHR ''*'' = Some 40)
   \<and> BinaryOperatorsInstalled (installed '')'') \<and> isascii (CurTok (installed '')''))
   \<and> char_of (CurTok (installed '')'')) = CHR '')''
   \<and> BinopPrecedence (installed '')'') CHR '')'' = None
   \<and> BinopPrecedence (snd (GetTokPrecendence (installed '')''))) =
        (BinopPrecedence (installed '')''))(CHR '')'' \<mapsto> 0)
   \<and> ParseBinOpRHS 1 0 (NumberExprAST Zero_double) (installed '')'') =
        Some (Some (NumberExprAST Zero_double),
              (installed '')'')\<lparr>BinopPrecedence := (BinopPrecedence (installed '')''))(CHR '')'' \<mapsto> 0)\<rparr>)
   \<and> BinopPrecedence (snd (GetTokPrecendence (installed ''+''))) = BinopPrecedence (installed ''+'')"
proof -
  let ?z = "NumberExprAST Zero_double"
  have i: "BinaryOperatorsInstalled (installed ''1@2'')"
    by (simp add: lexer_eval parser_eval)
  obtain s' where e: "ParseExpression 2 (installed ''1@2'') = Some (Some (NumberExprAST (strtod ''1'')), s')"
    and p: "BinopPrecedence s' CHR ''+'' = Some 20"
    by (simp add: lexer_eval parser_eval)
  obtain t' where te: "ParseTopLevelExpr 2 (installed ''1@2'') =
            Some (Some (FunctionAST (PrototypeAST [] []) (NumberExprAST (strtod ''1''))), t')"
    by (simp add: lexer_eval parser_eval)
  obtain d' where de: "ParseDefinition 3 (installed ''def f(x) x@'') =
            Some (Some (FunctionAST (PrototypeAST ''f'' [''x'']) (VariableExprAST ''x'')), d')"
    by (simp add: lexer_eval parser_eval)
  obtain m' where me: "MainLoop 5 (installed ''1@2'') = Some m'"
    and mp: "BinopPrecedence m' CHR ''*'' = Some 40"
    by (simp add: lexer_eval parser_eval HandleTopLevelExpression_def)
  have h: "BinaryOperatorsInstalled (installed '')'')" "isascii (CurTok (installed '')''))"
    "char_of (CurTok (installed '')'')) = CHR '')''"
    "BinopPrecedence (installed '')'') CHR '')'' = None"
    by (simp_all add: lexer_eval parser_eval)
  have k: "BinopPrecedence (installed ''+'') (char_of (CurTok (installed ''+''))) \<noteq> None"
    by (simp add: lexer_eval parser_eval)
  note t1 = table_gains_only_zero_entries
    [where s = "installed ''1@2''" and n = 2 and exprPrec = 0 and LHS = ?z]
  note t2 = table_gains_only_zero_entries
    [where s = "installed '')''" and n = 0 and exprPrec = 0 and LHS = ?z]
  note t3 = table_gains_only_zero_entries
    [where s = "installed ''+''" and n = 0 and exprPrec = 0 and LHS = ?z]
  note t4 = table_gains_only_zero_entries
    [where s = "installed ''def f(x) x@''" and n = 3 and exprPrec = 0 and LHS = ?z]
  note t5 = table_gains_only_zero_entries
    [where s = "installed ''1@2''" and n = 5 and exprPrec = 0 and LHS = ?z]
  from t1 i e te have a: "InstallBinaryOperators (installed ''1@2'') = installed ''1@2''"
    "table_extends (BinopPrecedence (installed ''1@2'')) (BinopPrecedence s')"
    "table_extends (BinopPrecedence (installed ''1@2'')) (BinopPrecedence t')"
    by blast+
  from t4 de have a4: "table_extends (BinopPrecedence (installed ''def f(x) x@'')) (BinopPrecedence d')"
    by blast
  from t5 me have a5: "table_extends (BinopPrecedence (installed ''1@2'')) (BinopPrecedence m')"
    by blast
  from t2 [THEN conjunct1] h have b: "BinopPrecedence (snd (GetTokPrecendence (installed '')''))) =
        (BinopPrecedence (installed '')''))(CHR '')'' \<mapsto> 0)"
    by simp
  from t2 [THEN conjunct2, THEN conjunct1] h
  have c: "ParseBinOpRHS 1 0 ?z (installed '')'') =
        Some (Some ?z,
              (installed '')'')\<lparr>BinopPrecedence := (BinopPrecedence (installed '')''))(CHR '')'' \<mapsto> 0)\<rparr>)"
    by (simp del: ParseBinOpRHS.simps)
  from t3 [THEN conjunct1] k
  have d: "BinopPrecedence (snd (GetTokPrecendence (installed ''+''))) = BinopPrecedence (installed ''+'')"
    by simp
  from i e p te de me mp h a a4 a5 b c d show ?thesis by blast
qed

text \<open>
  C3 as stated fails: with the operators installed, parsing \<^verbatim>\<open>1@2\<close> queries the
  precedence of \<^verbatim>\<open>@\<close>, which is not in the table, and leaves the new entry
  \<^verbatim>\<open>'@' -> 0\<close> behind; so does a single query with \<^verbatim>\<open>@\<close> as current token.
\<close>

theorem query_inserts_absent_symbol:
  "BinaryOperatorsInstalled (installed ''1@2'')
   \<and> BinopPrecedence (installed ''1@2'') CHR ''@'' = None
   \<and> map_option (\<lambda>r. BinopPrecedence (snd r) CHR ''@'') (ParseExpression 2 (installed ''1@2''))
       = Some (Some 0)
   \<and> BinopPrecedence (installed ''@'') CHR ''@'' = None
   \<and> BinopPrecedence (snd (GetTokPrecendence (installed ''@''))) CHR ''@'' = Some 0"
  by (simp add: lexer_eval parser_eval)

text \<open>
  C4, as the code has it. The ASCII test comes first and the installation test second.
  For a current token outside 0..127 (end of input, a keyword, an identifier, a number,
  a byte above 127) the answer is -1 whether the table is installed or not. For a token
  in 0..127 the answer is -2 while the table is empty, and otherwise the stored value if
  it is positive and -1 if the key is absent or its value is not positive.
\<close>

theorem GetTokPrecendence_value:
  "(isascii (CurTok s) \<and> BinaryOperatorsInstalled s
      \<and> BinopPrecedence s (char_of (CurTok s)) = Some v \<and> 0 < v
      \<longrightarrow> fst (GetTokPrecendence s) = v)
   \<and> (isascii (CurTok s) \<and> BinaryOperatorsInstalled s
      \<and> BinopPrecedence s (char_of (CurTok s)) = Some v \<and> v \<le> 0
      \<longrightarrow> fst (GetTokPrecendence s) = -1)
   \<and> (isascii (CurTok s) \<and> BinaryOperatorsInstalled s
      \<and> BinopPrecedence s (char_of (CurTok s)) = None
      \<longrightarrow> fst (GetTokPrecendence s) = -1)
   \<and> (\<not> isascii (CurTok s) \<longrightarrow> fst (GetTokPrecendence s) = -1)
   \<and> (CurTok s \<in> {tok_eof, tok_def, tok_extern, tok_identifier, tok_number}
      \<longrightarrow> fst (GetTokPrecendence s) = -1)
   \<and> (isascii (CurTok s) \<and> \<not> BinaryOperatorsInstalled s
      \<longrightarrow> fst (GetTokPrecendence s) = -2)"
  by (auto simp: GetTokPrecendence_def BinopPrecedence_subscript_def isascii_def
        tok_eof_def tok_def_def tok_extern_def tok_identifier_def tok_number_def)

theorem GetTokPrecendence_value_witness:
  "isascii (CurTok (installed ''*'')) \<and> BinaryOperatorsInstalled (installed ''*'')
   \<and> BinopPrecedence (installed ''*'') (char_of (CurTok (installed ''*''))) = Some 40
   \<and> fst (GetTokPrecendence (installed ''*'')) = 40
   \<and> isascii (CurTok (installed ''@'')) \<and> BinaryOperatorsInstalled (installed ''@'')
   \<and> BinopPrecedence (installed ''@'') (char_of (CurTok (installed ''@''))) = None
   \<and> fst (GetTokPrecendence (installed ''@'')) = -1
   \<and> isascii (CurTok (snd (GetTokPrecendence (installed ''@''))))
   \<and> BinopPrecedence (snd (GetTokPrecendence (installed ''@'')))
        (char_of (CurTok (snd (GetTokPrecendence (installed ''@''))))) = Some 0
   \<and> fst (GetTokPrecendence (snd (GetTokPrecendence (installed ''@'')))) = -1
   \<and> \<not> isascii (CurTok (installed ''x'')) \<and> CurTok (installed ''x'') = tok_identifier
   \<and> fst (GetTokPrecendence (installed ''x'')) = -1
   \<and> isascii (CurTok (primed ''*'')) \<and> \<not> BinaryOperatorsInstalled (primed ''*'')
   \<and> fst (GetTokPrecendence (primed ''*'')) = -2"
proof -
  have a: "isascii (CurTok (installed ''*'')) \<and> BinaryOperatorsInstalled (installed ''*'')
      \<and> BinopPrecedence (installed ''*'') (char_of (CurTok (installed ''*''))) = Some 40 \<and> (0::int) < 40"
    by (simp add: lexer_eval parser_eval)
  have b: "isascii (CurTok (installed ''@'')) \<and> BinaryOperatorsInstalled (installed ''@'')
      \<and> BinopPrecedence (installed ''@'') (char_of (CurTok (installed ''@''))) = None"
    by (simp add: lexer_eval parser_eval)
  have c: "isascii (CurTok (snd (GetTokPrecendence (installed ''@''))))
      \<and> BinaryOperatorsInstalled (snd (GetTokPrecendence (installed ''@'')))
      \<and> BinopPrecedence (snd (GetTokPrecendence (installed ''@'')))
        (char_of (CurTok (snd (GetTokPrecendence (installed ''@''))))) = Some 0 \<and> (0::int) \<le> 0"
    by (simp add: lexer_eval parser_eval)
  have d: "\<not> isascii (CurTok (installed ''x'')) \<and> CurTok (installed ''x'') = tok_identifier"
    by (simp add: lexer_eval parser_eval)
  have e: "isascii (CurTok (primed ''*'')) \<and> \<not> BinaryOperatorsInstalled (primed ''*'')"
    by (simp add: lexer_eval parser_eval)
  have r1: "fst (GetTokPrecendence (installed ''*'')) = 40"
    using a GetTokPrecendence_value [of "installed ''*''" 40] by (elim conjE) simp
  have r2: "fst (GetTokPrecendence (installed ''@'')) = -1"
    using b GetTokPrecendence_value [of "installed ''@''" 0] by (elim conjE) simp
  have r3: "fst (GetTokPrecendence (snd (GetTokPrecendence (installed ''@'')))) = -1"
    using c GetTokPrecendence_value [of "snd (GetTokPrecendence (installed ''@''))" 0]
    by (elim conjE) simp
  have r4: "fst (GetTokPrecendence (installed ''x'')) = -1"
    using d GetTokPrecendence_value [of "installed ''x''" 0] by (elim conjE) simp
  have r5: "fst (GetTokPrecendence (primed ''*'')) = -2"
    using e GetTokPrecendence_value [of "primed ''*''" 0] by (elim conjE) simp
  from a b c d e r1 r2 r3 r4 r5 show ?thesis by (elim conjE) (intro conjI; assumption)
qed

text \<open>
  C4 as stated fails: queried before the table is initialised, with end of input as
  the current token, \<open>GetTokPrecendence\<close> returns -1 and not the "not yet installed"
  value -2.
\<close>

theorem uninstalled_query_at_end_of_input:
  "\<not> BinaryOperatorsInstalled (primed []) \<and> CurTok (primed []) = tok_eof
   \<and> fst (GetTokPrecendence (primed [])) = -1"
  by (simp add: lexer_eval parser_eval)

section \<open>Parsing before the operators are installed\<close>

lemma uninstalled_GetTokPrecendence:
  assumes "\<not> BinaryOperatorsInstalled s"
  shows "fst (GetTokPrecendence s) = (if isascii (CurTok s) then -2 else -1)"
    and "fst (GetTokPrecendence s) < 0"
    and "\<not> BinaryOperatorsInstalled (snd (GetTokPrecendence s))"
    and "CurTok (snd (GetTokPrecendence s)) = CurTok s"
  using assms
  by (auto simp: GetTokPrecendence_def BinaryOperatorsInstalled_def LogError_def fprintf_stderr_def)

lemma CurTok_after_query: "CurTok (snd (GetTokPrecendence s)) = CurTok s"
  by (auto simp: GetTokPrecendence_def BinopPrecedence_subscript_def LogError_def
        fprintf_stderr_def split: option.splits)

lemma uninstalled_ParseBinOpRHS:
  assumes "\<not> BinaryOperatorsInstalled s" and "0 \<le> exprPrec"
  shows "ParseBinOpRHS (Suc n) exprPrec LHS s = Some (Some LHS, snd (GetTokPrecendence s))"
  using assms uninstalled_GetTokPrecendence(2) [of s]
  by (simp add: case_prod_beta)

lemma uninstalled_preserved_ParsePrimary:
  "res_rel (\<lambda>s s'. \<not> BinaryOperatorsInstalled s \<longrightarrow> \<not> BinaryOperatorsInstalled s') s
     (ParsePrimary n s)"
proof (rule parser_preserves(1))
  show "\<not> BinaryOperatorsInstalled s \<longrightarrow> \<not> BinaryOperatorsInstalled (snd (GetTokPrecendence s))" for s
    using uninstalled_GetTokPrecendence(3) [of s] by blast
qed (simp_all add: BinaryOperatorsInstalled_def make_unique_def fprintf_stderr_def)

lemma uninstalled_ParseExpression:
  assumes a: "\<not> BinaryOperatorsInstalled s"
  shows "ParseExpression (Suc (Suc n)) s =
        (case ParsePrimary (Suc n) s of
           None \<Rightarrow> None
         | Some (None, s1) \<Rightarrow> Some (None, s1)
         | Some (Some LHS, s1) \<Rightarrow> Some (Some LHS, snd (GetTokPrecendence s1)))"
proof (cases "ParsePrimary (Suc n) s")
  case None
  then show ?thesis by (simp del: ParsePrimary.simps ParseBinOpRHS.simps)
next
  case (Some r)
  obtain x s1 where r: "r = (x, s1)" by (cases r)
  have "\<not> BinaryOperatorsInstalled s1"
    using uninstalled_preserved_ParsePrimary [of s "Suc n"] Some r a by simp
  then have "ParseBinOpRHS (Suc n) 0 LHS s1 = Some (Some LHS, snd (GetTokPrecendence s1))" for LHS
    by (simp add: uninstalled_ParseBinOpRHS del: ParseBinOpRHS.simps)
  with Some r show ?thesis
    by (cases x) (simp_all del: ParsePrimary.simps ParseBinOpRHS.simps)
qed

lemma uninstalled_ParseExpression_stops:
  assumes a: "\<not> BinaryOperatorsInstalled s"
    and p: "ParsePrimary (Suc n) s = Some (Some x, s1)"
  shows "ParseExpression (Suc (Suc n)) s = Some (Some x, snd (GetTokPrecendence s1))"
  using p by (simp add: uninstalled_ParseExpression [OF a] del: ParsePrimary.simps ParseParenExpr.simps ParseIdentifierExpr.simps
          ParseArgs.simps ParseExpression.simps ParseBinOpRHS.simps)

text \<open>
  Inside parentheses: if the token after the first primary is not the closing
  parenthesis, \<open>ParseParenExpr\<close> fails, and with it the primary that began with the
  opening parenthesis.
\<close>

lemma uninstalled_parenthesis_fails:
  assumes a: "\<not> BinaryOperatorsInstalled s" and c: "CurTok s = of_char CHR ''(''"
    and p: "ParsePrimary (Suc n) (snd (getNextToken s)) = Some (Some x, s2)"
    and t: "CurTok s2 \<noteq> of_char CHR '')''"
  shows "ParsePrimary (Suc (Suc (Suc (Suc n)))) s =
     Some (None, LogError (''expected '' @ [CHR 0x27, CHR '')'', CHR 0x27])
                   (snd (GetTokPrecendence s2)))"
proof -
  define s1 where "s1 = snd (getNextToken s)"
  have a1: "\<not> BinaryOperatorsInstalled s1"
    using a by (simp add: s1_def BinaryOperatorsInstalled_def)
  have e: "ParseExpression (Suc (Suc n)) s1 = Some (Some x, snd (GetTokPrecendence s2))"
    using a1 p [folded s1_def] by (rule uninstalled_ParseExpression_stops)
  have t': "CurTok (snd (GetTokPrecendence s2)) \<noteq> of_char CHR '')''"
    using t by (simp add: CurTok_after_query)
  have "ParseParenExpr (Suc (Suc (Suc n))) s =
     Some (None, LogError (''expected '' @ [CHR 0x27, CHR '')'', CHR 0x27])
                   (snd (GetTokPrecendence s2)))"
    using e t' by (subst ParseParenExpr.simps(2)) (simp add: Let_def s1_def del: ParsePrimary.simps ParseParenExpr.simps ParseIdentifierExpr.simps
          ParseArgs.simps ParseExpression.simps ParseBinOpRHS.simps)
  then show ?thesis
    using c by (subst ParsePrimary.simps(2))
      (simp add: tok_identifier_def tok_number_def del: ParsePrimary.simps ParseParenExpr.simps ParseIdentifierExpr.simps
          ParseArgs.simps ParseExpression.simps ParseBinOpRHS.simps)
qed

text \<open>
  In an argument list: if the token after the first primary of the first argument is
  neither the closing parenthesis nor a comma, the call fails, and with it the primary
  that began with the identifier.
\<close>

lemma uninstalled_argument_fails:
  assumes a: "\<not> BinaryOperatorsInstalled s" and c: "CurTok s = tok_identifier"
    and c1: "CurTok (snd (getNextToken s)) = of_char CHR ''(''"
    and c2: "CurTok (snd (getNextToken (snd (getNextToken s)))) \<noteq> of_char CHR '')''"
    and p: "ParsePrimary (Suc n) (snd (getNextToken (snd (getNextToken s)))) = Some (Some x, s3)"
    and t: "CurTok s3 \<noteq> of_char CHR '')''" "CurTok s3 \<noteq> of_char CHR '',''"
  shows "ParsePrimary (Suc (Suc (Suc (Suc (Suc n))))) s =
     Some (None, LogError (''Expected '' @ [CHR 0x27, CHR '')'', CHR 0x27] @ '' or ''
                        @ [CHR 0x27, CHR '','', CHR 0x27] @ '' in argument list'')
                   (snd (GetTokPrecendence s3)))"
proof -
  define s1 where "s1 = snd (getNextToken s)"
  define s2 where "s2 = snd (getNextToken s1)"
  have a2: "\<not> BinaryOperatorsInstalled s2"
    using a by (simp add: s1_def s2_def BinaryOperatorsInstalled_def)
  have e: "ParseExpression (Suc (Suc n)) s2 = Some (Some x, snd (GetTokPrecendence s3))"
    using a2 p [folded s1_def, folded s2_def] by (rule uninstalled_ParseExpression_stops)
  have t': "CurTok (snd (GetTokPrecendence s3)) \<noteq> of_char CHR '')''"
    "CurTok (snd (GetTokPrecendence s3)) \<noteq> of_char CHR '',''"
    using t by (simp_all add: CurTok_after_query)
  have ar: "ParseArgs (Suc (Suc (Suc n))) [] s2 =
     Some (None, LogError (''Expected '' @ [CHR 0x27, CHR '')'', CHR 0x27] @ '' or ''
                        @ [CHR 0x27, CHR '','', CHR 0x27] @ '' in argument list'')
                   (snd (GetTokPrecendence s3)))"
    using e t' by (subst ParseArgs.simps(2)) (simp add: Let_def del: ParsePrimary.simps ParseParenExpr.simps ParseIdentifierExpr.simps
          ParseArgs.simps ParseExpression.simps ParseBinOpRHS.simps)
  have "ParseIdentifierExpr (Suc (Suc (Suc (Suc n)))) s =
     Some (None, LogError (''Expected '' @ [CHR 0x27, CHR '')'', CHR 0x27] @ '' or ''
                        @ [CHR 0x27, CHR '','', CHR 0x27] @ '' in argument list'')
                   (snd (GetTokPrecendence s3)))"
    using ar c1 [folded s1_def] c2 [folded s1_def, folded s2_def]
    by (subst ParseIdentifierExpr.simps(2))
       (simp add: Let_def s1_def [symmetric] s2_def [symmetric] del: ParsePrimary.simps ParseParenExpr.simps ParseIdentifierExpr.simps
          ParseArgs.simps ParseExpression.simps ParseBinOpRHS.simps)
  then show ?thesis
    using c by (subst ParsePrimary.simps(2)) (simp del: ParsePrimary.simps ParseParenExpr.simps ParseIdentifierExpr.simps
          ParseArgs.simps ParseExpression.simps ParseBinOpRHS.simps)
qed

text \<open>
  C10, as the code has it. While the table is empty a precedence query answers -2 for an
  ASCII token and -1 for any other, both below every floor from 0 up, so
  \<open>ParseBinOpRHS\<close> returns its left-hand side at once, with the current token where it
  was, and never \<^verbatim>\<open>nullptr\<close>. \<open>ParseExpression\<close> therefore returns exactly what its
  first \<open>ParsePrimary\<close> returns: on \<^verbatim>\<open>1+2\<close> the literal 1, with \<^verbatim>\<open>+\<close> left as the
  current token and the "not installed" message on standard error. The empty table can
  still make an expression parse fail, because the operator stays where it is: a primary
  that begins with a parenthesis fails if the token after the first primary inside is not
  the closing parenthesis, and a call fails if the token after the first primary of its
  first argument is neither the closing parenthesis nor a comma. So \<^verbatim>\<open>(1+2)\<close> and
  \<^verbatim>\<open>f(1+2)\<close> fail.
\<close>

theorem uninstalled_table_ends_operator_loop:
  "(\<not> BinaryOperatorsInstalled s \<longrightarrow>
      fst (GetTokPrecendence s) = (if isascii (CurTok s) then -2 else -1)
      \<and> CurTok (snd (GetTokPrecendence s)) = CurTok s)
   \<and> (\<not> BinaryOperatorsInstalled s \<and> 0 \<le> exprPrec \<longrightarrow>
      ParseBinOpRHS (Suc n) exprPrec LHS s = Some (Some LHS, snd (GetTokPrecendence s)))
   \<and> (\<not> BinaryOperatorsInstalled s \<longrightarrow>
      ParseExpression (Suc (Suc n)) s =
        (case ParsePrimary (Suc n) s of
           None \<Rightarrow> None
         | Some (None, s1) \<Rightarrow> Some (None, s1)
         | Some (Some LHS, s1) \<Rightarrow> Some (Some LHS, snd (GetTokPrecendence s1))))
   \<and> (\<exists>s'. ParseExpression (2 + n) (primed ''1+2'') =
              Some (Some (NumberExprAST (strtod ''1'')), s')
          \<and> CurTok s' = of_char CHR ''+''
          \<and> stderr s' = [''Error: Binary operators are not installed yet.'' @ [CHR 0x0A]])
   \<and> (\<forall>x s2. \<not> BinaryOperatorsInstalled s \<and> CurTok s = of_char CHR ''(''
         \<and> ParsePrimary (Suc n) (snd (getNextToken s)) = Some (Some x, s2)
         \<and> CurTok s2 \<noteq> of_char CHR '')''
         \<longrightarrow> ParsePrimary (Suc (Suc (Suc (Suc n)))) s =
               Some (None, LogError (''expected '' @ [CHR 0x27, CHR '')'', CHR 0x27])
                             (snd (GetTokPrecendence s2))))
   \<and> (\<forall>x s3. \<not> BinaryOperatorsInstalled s \<and> CurTok s = tok_identifier
         \<and> CurTok (snd (getNextToken s)) = of_char CHR ''(''
         \<and> CurTok (snd (getNextToken (snd (getNextToken s)))) \<noteq> of_char CHR '')''
         \<and> ParsePrimary (Suc n) (snd (getNextToken (snd (getNextToken s)))) = Some (Some x, s3)
         \<and> CurTok s3 \<noteq> of_char CHR '')'' \<and> CurTok s3 \<noteq> of_char CHR '',''
         \<longrightarrow> ParsePrimary (Suc (Suc (Suc (Suc (Suc n))))) s =
               Some (None, LogError (''Expected '' @ [CHR 0x27, CHR '')'', CHR 0x27] @ '' or ''
                                  @ [CHR 0x27, CHR '','', CHR 0x27] @ '' in argument list'')
                             (snd (GetTokPrecendence s3))))
   \<and> map_option fst (ParseExpression (6 + n) (primed ''(1+2)'')) = Some None
   \<and> map_option fst (ParseExpression (7 + n) (primed ''f(1+2)'')) = Some None"
proof (intro conjI impI allI)
  assume a: "\<not> BinaryOperatorsInstalled s"
  then show "fst (GetTokPrecendence s) = (if isascii (CurTok s) then -2 else -1)"
    by (rule uninstalled_GetTokPrecendence(1))
  from a show "CurTok (snd (GetTokPrecendence s)) = CurTok s"
    by (rule uninstalled_GetTokPrecendence(4))
  from a show "ParseExpression (Suc (Suc n)) s =
        (case ParsePrimary (Suc n) s of
           None \<Rightarrow> None
         | Some (None, s1) \<Rightarrow> Some (None, s1)
         | Some (Some LHS, s1) \<Rightarrow> Some (Some LHS, snd (GetTokPrecendence s1)))"
    by (rule uninstalled_ParseExpression)
next
  assume "\<not> BinaryOperatorsInstalled s \<and> 0 \<le> exprPrec"
  then show "ParseBinOpRHS (Suc n) exprPrec LHS s = Some (Some LHS, snd (GetTokPrecendence s))"
    using uninstalled_ParseBinOpRHS [of s exprPrec n LHS] by blast
next
  show "\<exists>s'. ParseExpression (2 + n) (primed ''1+2'') =
              Some (Some (NumberExprAST (strtod ''1'')), s')
          \<and> CurTok s' = of_char CHR ''+''
          \<and> stderr s' = [''Error: Binary operators are not installed yet.'' @ [CHR 0x0A]]"
    by (simp add: lexer_eval parser_eval)
next
  fix x s2
  assume "\<not> BinaryOperatorsInstalled s \<and> CurTok s = of_char CHR ''(''
         \<and> ParsePrimary (Suc n) (snd (getNextToken s)) = Some (Some x, s2)
         \<and> CurTok s2 \<noteq> of_char CHR '')''"
  then show "ParsePrimary (Suc (Suc (Suc (Suc n)))) s =
               Some (None, LogError (''expected '' @ [CHR 0x27, CHR '')'', CHR 0x27])
                             (snd (GetTokPrecendence s2)))"
    using uninstalled_parenthesis_fails [of s n x s2] by blast
next
  fix x s3
  assume "\<not> BinaryOperatorsInstalled s \<and> CurTok s = tok_identifier
         \<and> CurTok (snd (getNextToken s)) = of_char CHR ''(''
         \<and> CurTok (snd (getNextToken (snd (getNextToken s)))) \<noteq> of_char CHR '')''
         \<and> ParsePrimary (Suc n) (snd (getNextToken (snd (getNextToken s)))) = Some (Some x, s3)
         \<and> CurTok s3 \<noteq> of_char CHR '')'' \<and> CurTok s3 \<noteq> of_char CHR '',''"
  then show "ParsePrimary (Suc (Suc (Suc (Suc (Suc n))))) s =
               Some (None, LogError (''Expected '' @ [CHR 0x27, CHR '')'', CHR 0x27] @ '' or ''
                                  @ [CHR 0x27, CHR '','', CHR 0x27] @ '' in argument list'')
                             (snd (GetTokPrecendence s3)))"
    using uninstalled_argument_fails [of s n x s3] by blast
next
  show "map_option fst (ParseExpression (6 + n) (primed ''(1+2)'')) = Some None"
    by (simp add: lexer_eval parser_eval)
  show "map_option fst (ParseExpression (7 + n) (primed ''f(1+2)'')) = Some None"
    by (simp add: lexer_eval parser_eval)
qed

theorem uninstalled_table_ends_operator_loop_witness:
  "\<not> BinaryOperatorsInstalled (primed ''+'') \<and> (0::int) \<le> 0
   \<and> fst (GetTokPrecendence (primed ''+'')) = -2
   \<and> ParseBinOpRHS 1 0 (NumberExprAST Zero_double) (primed ''+'')
       = Some (Some (NumberExprAST Zero_double), snd (GetTokPrecendence (primed ''+'')))
   \<and> CurTok (snd (GetTokPrecendence (primed ''+''))) = of_char CHR ''+''
   \<and> \<not> BinaryOperatorsInstalled (primed []) \<and> fst (GetTokPrecendence (primed [])) = -1
   \<and> (\<exists>s1. \<not> BinaryOperatorsInstalled (primed ''1+2'')
         \<and> ParsePrimary 1 (primed ''1+2'') = Some (Some (NumberExprAST (strtod ''1'')), s1)
         \<and> ParseExpression 2 (primed ''1+2'') =
             Some (Some (NumberExprAST (strtod ''1'')), snd (GetTokPrecendence s1)))
   \<and> (\<exists>s2. \<not> BinaryOperatorsInstalled (primed ''(1+2)'')
         \<and> CurTok (primed ''(1+2)'') = of_char CHR ''(''
         \<and> ParsePrimary 1 (snd (getNextToken (primed ''(1+2)''))) =
             Some (Some (NumberExprAST (strtod ''1'')), s2)
         \<and> CurTok s2 = of_char CHR ''+''
         \<and> ParsePrimary 4 (primed ''(1+2)'') =
             Some (None, LogError (''expected '' @ [CHR 0x27, CHR '')'', CHR 0x27])
                           (snd (GetTokPrecendence s2))))
   \<and> (\<exists>s3. \<not> BinaryOperatorsInstalled (primed ''f(1+2)'')
         \<and> CurTok (primed ''f(1+2)'') = tok_identifier
         \<and> ParsePrimary 1 (snd (getNextToken (snd (getNextToken (primed ''f(1+2)''))))) =
             Some (Some (NumberExprAST (strtod ''1'')), s3)
         \<and> CurTok s3 = of_char CHR ''+''
         \<and> ParsePrimary 5 (primed ''f(1+2)'') =
             Some (None, LogError (''Expected '' @ [CHR 0x27, CHR '')'', CHR 0x27] @ '' or ''
                                @ [CHR 0x27, CHR '','', CHR 0x27] @ '' in argument list'')
                           (snd (GetTokPrecendence s3))))"
proof -
  let ?z = "NumberExprAST Zero_double"
  have a: "\<not> BinaryOperatorsInstalled (primed ''+'')" and c: "CurTok (primed ''+'') = of_char CHR ''+''"
    by (simp_all add: lexer_eval parser_eval)
  from c have ia: "isascii (CurTok (primed ''+''))" by (simp add: isascii_def)
  note A = uninstalled_table_ends_operator_loop
    [where s = "primed ''+''" and n = 0 and exprPrec = 0 and LHS = ?z]
  from A [THEN conjunct1] a ia c
  have 1: "fst (GetTokPrecendence (primed ''+'')) = -2"
    "CurTok (snd (GetTokPrecendence (primed ''+''))) = of_char CHR ''+''"
    by simp_all
  from A [THEN conjunct2, THEN conjunct1] a
  have 2: "ParseBinOpRHS 1 0 ?z (primed ''+'') = Some (Some ?z, snd (GetTokPrecendence (primed ''+'')))"
    by (simp del: ParseBinOpRHS.simps)
  have b: "\<not> BinaryOperatorsInstalled (primed [])" "\<not> isascii (CurTok (primed []))"
    by (simp_all add: lexer_eval parser_eval)
  note B = uninstalled_table_ends_operator_loop
    [where s = "primed []" and n = 0 and exprPrec = 0 and LHS = ?z]
  from B [THEN conjunct1] b have 3: "fst (GetTokPrecendence (primed [])) = -1" by simp
  define e where "e = primed ''1+2''"
  define e1 where "e1 = snd (the (ParsePrimary 1 e))"
  have ea: "\<not> BinaryOperatorsInstalled e"
    by (simp add: e_def lexer_eval parser_eval)
  have ep: "ParsePrimary 1 e = Some (Some (NumberExprAST (strtod ''1'')), e1)"
    by (simp add: e1_def e_def lexer_eval parser_eval)
  note E = uninstalled_table_ends_operator_loop
    [where s = e and n = 0 and exprPrec = 0 and LHS = ?z]
  from E [THEN conjunct2, THEN conjunct2, THEN conjunct1] ea ep
  have 6: "ParseExpression 2 e = Some (Some (NumberExprAST (strtod ''1'')), snd (GetTokPrecendence e1))"
    by (simp del: ParsePrimary.simps ParseParenExpr.simps ParseIdentifierExpr.simps
          ParseArgs.simps ParseExpression.simps ParseBinOpRHS.simps add: numeral_2_eq_2)
  define p where "p = primed ''(1+2)''"
  define p2 where "p2 = snd (the (ParsePrimary 1 (snd (getNextToken p))))"
  have pa: "\<not> BinaryOperatorsInstalled p" "CurTok p = of_char CHR ''(''"
    by (simp_all add: p_def lexer_eval parser_eval)
  have pp: "ParsePrimary 1 (snd (getNextToken p)) = Some (Some (NumberExprAST (strtod ''1'')), p2)"
    by (simp add: p2_def p_def lexer_eval parser_eval)
  have pc: "CurTok p2 = of_char CHR ''+''"
    by (simp add: p2_def p_def lexer_eval parser_eval)
  then have pn: "CurTok p2 \<noteq> of_char CHR '')''" by simp
  note C = uninstalled_table_ends_operator_loop
    [where s = p and n = 0 and exprPrec = 0 and LHS = ?z]
  from C [THEN conjunct2, THEN conjunct2, THEN conjunct2, THEN conjunct2, THEN conjunct1] pa pp pn
  have 4: "ParsePrimary 4 p =
             Some (None, LogError (''expected '' @ [CHR 0x27, CHR '')'', CHR 0x27])
                           (snd (GetTokPrecendence p2)))"
    by (auto simp del: ParsePrimary.simps ParseParenExpr.simps ParseIdentifierExpr.simps
          ParseArgs.simps ParseExpression.simps ParseBinOpRHS.simps simp: eval_nat_numeral)
  define q where "q = primed ''f(1+2)''"
  define q3 where "q3 = snd (the (ParsePrimary 1 (snd (getNextToken (snd (getNextToken q))))))"
  have qa: "\<not> BinaryOperatorsInstalled q" "CurTok q = tok_identifier"
    "CurTok (snd (getNextToken q)) = of_char CHR ''(''"
    "CurTok (snd (getNextToken (snd (getNextToken q)))) \<noteq> of_char CHR '')''"
    by (simp_all add: q_def lexer_eval parser_eval)
  have qp: "ParsePrimary 1 (snd (getNextToken (snd (getNextToken q)))) =
      Some (Some (NumberExprAST (strtod ''1'')), q3)"
    by (simp add: q3_def q_def lexer_eval parser_eval)
  have qc: "CurTok q3 = of_char CHR ''+''"
    by (simp add: q3_def q_def lexer_eval parser_eval)
  then have qn: "CurTok q3 \<noteq> of_char CHR '')''" "CurTok q3 \<noteq> of_char CHR '',''" by simp_all
  note D = uninstalled_table_ends_operator_loop
    [where s = q and n = 0 and exprPrec = 0 and LHS = ?z]
  from D [THEN conjunct2, THEN conjunct2, THEN conjunct2, THEN conjunct2, THEN conjunct2,
          THEN conjunct1] qa qp qn
  have 5: "ParsePrimary 5 q =
             Some (None, LogError (''Expected '' @ [CHR 0x27, CHR '')'', CHR 0x27] @ '' or ''
                                @ [CHR 0x27, CHR '','', CHR 0x27] @ '' in argument list'')
                           (snd (GetTokPrecendence q3)))"
    by (auto simp del: ParsePrimary.simps ParseParenExpr.simps ParseIdentifierExpr.simps
          ParseArgs.simps ParseExpression.simps ParseBinOpRHS.simps simp: eval_nat_numeral)
  from a 1 2 b(1) 3 ea ep 6 pa pp pc 4 qa(1,2) qp qc 5 show ?thesis
    unfolding p_def q_def e_def by blast
qed

text \<open>
  C10 as stated fails: an input with a binary operator can fail to parse because the
  table is not installed. On \<^verbatim>\<open>(1+2)\<close> the inner expression stops before \<^verbatim>\<open>+\<close>,
  \<open>ParseParenExpr\<close> finds no \<^verbatim>\<open>)\<close> and returns \<^verbatim>\<open>nullptr\<close>; with the operators
  installed the same input parses.
\<close>

theorem uninstalled_table_fails_in_parentheses:
  "\<not> BinaryOperatorsInstalled (primed ''(1+2)'')
   \<and> map_option fst (ParseExpression 6 (primed ''(1+2)'')) = Some None
   \<and> map_option fst (ParseExpression 6 (installed ''(1+2)'')) =
       Some (Some (BinaryExprAST CHR ''+'' (NumberExprAST (strtod ''1''))
                                            (NumberExprAST (strtod ''2''))))"
  by (simp add: lexer_eval parser_eval)

section \<open>Inputs of whitespace and comments\<close>

text \<open>
  \<open>blank_from False cs\<close>: the characters \<open>cs\<close> are whitespace and \<^verbatim>\<open>#\<close> comments only,
  each comment running to a line feed, a carriage return or the end of the input;
  \<open>blank_from True cs\<close> is the same for \<open>cs\<close> starting inside a comment.
\<close>

fun blank_from :: "bool \<Rightarrow> string \<Rightarrow> bool" where
  "blank_from in_comment [] = True"
| "blank_from False (c # cs) =
     (if isspace (of_char c) then blank_from False cs
      else if c = CHR ''#'' then blank_from True cs
      else False)"
| "blank_from True (c # cs) =
     (if c = CHR 0x0A \<or> c = CHR 0x0D then blank_from False cs else blank_from True cs)"

definition only_whitespace_and_comments :: "string \<Rightarrow> bool" where
  "only_whitespace_and_comments input = blank_from False input"

text \<open>The lexer is at the end of its input, or in front of whitespace and comments only.\<close>

definition blank_state :: "state \<Rightarrow> bool" where
  "blank_state s \<longleftrightarrow>
     LastChar s = EOF
     \<or> (isspace (LastChar s) \<and> blank_from False (stdin s))
     \<or> (LastChar s = of_char CHR ''#'' \<and> blank_from True (stdin s))"

lemma of_char_10_13:
  "(of_char c = (10::int)) = (c = CHR 0x0A)" "(of_char c = (13::int)) = (c = CHR 0x0D)"
  "(of_char c = (35::int)) = (c = CHR ''#'')"
proof -
  have "(of_char c = (of_char CHR 0x0A :: int)) = (c = CHR 0x0A)" by (rule of_char_eq_iff)
  then show "(of_char c = (10::int)) = (c = CHR 0x0A)" by simp
  have "(of_char c = (of_char CHR 0x0D :: int)) = (c = CHR 0x0D)" by (rule of_char_eq_iff)
  then show "(of_char c = (13::int)) = (c = CHR 0x0D)" by simp
  have "(of_char c = (of_char CHR ''#'' :: int)) = (c = CHR ''#'')" by (rule of_char_eq_iff)
  then show "(of_char c = (35::int)) = (c = CHR ''#'')" by simp
qed

lemma blank_skip_whitespace:
  "blank_state s \<Longrightarrow> blank_state (skip_whitespace s) \<and> \<not> isspace (LastChar (skip_whitespace s))"
proof (induction s rule: skip_whitespace.induct)
  case (1 s)
  show ?case
  proof (cases "isspace (LastChar s)")
    case True
    with "1.prems" have b: "blank_from False (stdin s)"
      by (auto simp: blank_state_def isspace_def EOF_def)
    have "blank_state (read_LastChar s)"
    proof (cases "stdin s")
      case Nil
      then show ?thesis by (simp add: blank_state_def read_LastChar_def getchar_def)
    next
      case (Cons c cs)
      with b show ?thesis
        by (auto simp: blank_state_def read_LastChar_def getchar_def of_char_10_13 split: if_splits)
    qed
    with "1.IH" [OF True] True show ?thesis
      by (subst (1 2) skip_whitespace.simps) simp
  next
    case False
    with "1.prems" show ?thesis by (subst (1 2) skip_whitespace.simps) simp
  qed
qed

lemma blank_comment_loop:
  "blank_from True (stdin s) \<Longrightarrow> blank_state (comment_loop s)
     \<and> LastChar (comment_loop s) \<noteq> of_char CHR ''#''"
proof (induction s rule: comment_loop.induct)
  case (1 s)
  show ?case
  proof (cases "stdin s")
    case Nil
    then have "read_LastChar s = s\<lparr>LastChar := EOF\<rparr>"
      by (simp add: read_LastChar_def getchar_def)
    then show ?thesis
      by (subst (1 2) comment_loop.simps) (simp add: Let_def blank_state_def EOF_def)
  next
    case (Cons c cs)
    then have r: "read_LastChar s = s\<lparr>stdin := cs, LastChar := of_char c\<rparr>"
      by (simp add: read_LastChar_def getchar_def)
    show ?thesis
    proof (cases "c = CHR 0x0A \<or> c = CHR 0x0D")
      case True
      with Cons "1.prems" have "blank_from False cs" by auto
      with True r show ?thesis
        by (subst (1 2) comment_loop.simps)
           (auto simp: Let_def blank_state_def isspace_def)
    next
      case False
      with Cons "1.prems" have b: "blank_from True (stdin (read_LastChar s))" by (simp add: r)
      from False have c: "LastChar (read_LastChar s) \<noteq> EOF \<and> LastChar (read_LastChar s) \<noteq> 10
            \<and> LastChar (read_LastChar s) \<noteq> 13"
        by (simp add: r of_char_neq_EOF of_char_10_13)
      from "1.IH" [OF refl c b] c show ?thesis
        by (subst (1 2) comment_loop.simps) (simp add: Let_def)
    qed
  qed
qed

lemma gettok_blank:
  "blank_state s0 \<Longrightarrow> fst (gettok s0) = tok_eof \<and> LastChar (snd (gettok s0)) = EOF"
proof (induction s0 rule: gettok.induct)
  case (1 s0)
  define s where "s = skip_whitespace s0"
  have bs: "blank_state s" and ns: "\<not> isspace (LastChar s)"
    using blank_skip_whitespace [OF "1.prems"] by (simp_all add: s_def)
  then consider (eof) "LastChar s = EOF" | (hash) "LastChar s = of_char CHR ''#''" "blank_from True (stdin s)"
    by (auto simp: blank_state_def)
  then show ?case
  proof cases
    case eof
    then show ?thesis
      by (subst (1 2) gettok.simps)
         (simp add: Let_def s_def [symmetric] isalpha_def isdigit_def EOF_def gettok_rest_def)
  next
    case hash
    then have na: "\<not> isalpha (LastChar s)" and nd: "\<not> (isdigit (LastChar s) \<or> LastChar s = of_char CHR ''.'')"
      by (simp_all add: isalpha_def isdigit_def)
    have bc: "blank_state (comment_loop s)" using blank_comment_loop [OF hash(2)] by simp
    show ?thesis
    proof (cases "LastChar (comment_loop s) \<noteq> EOF")
      case True
      from "1.IH" [OF s_def na nd hash(1) refl True bc] na nd hash(1) True show ?thesis
        by (subst (1 2) gettok.simps) (simp add: Let_def s_def [symmetric])
    next
      case False
      with na nd hash(1) show ?thesis
        by (subst (1 2) gettok.simps) (simp add: Let_def s_def [symmetric] gettok_rest_def)
    qed
  qed
qed

lemma gettok_at_EOF: "LastChar s = EOF \<Longrightarrow> gettok s = (tok_eof, s)"
  by (subst gettok.simps, subst skip_whitespace.simps)
     (simp add: Let_def isspace_def isalpha_def isdigit_def EOF_def gettok_rest_def)

lemma blank_initial_state:
  "only_whitespace_and_comments input \<Longrightarrow> blank_state (initial_state input)"
  "only_whitespace_and_comments input \<Longrightarrow> blank_state (InstallBinaryOperators (initial_state input))"
  by (simp_all add: only_whitespace_and_comments_def blank_state_def initial_state_def isspace_def
        InstallBinaryOperators_def)

text \<open>
  C7. For every input of whitespace and \<^verbatim>\<open>#\<close> comments only, a last comment without a
  line end included, the first call of \<open>gettok\<close> returns end of input, and so does
  every later call, without reading anything. With that token as current token
  \<open>MainLoop\<close> returns in its first iteration: it prints its prompt once, reports no
  parsed construct and constructs no object.
\<close>

theorem blank_input_is_end_of_input:
  assumes "only_whitespace_and_comments input"
  shows "fst (gettok (initial_state input)) = tok_eof
    \<and> gettok (snd (gettok (initial_state input))) = (tok_eof, snd (gettok (initial_state input)))
    \<and> CurTok (primed input) = tok_eof \<and> CurTok (installed input) = tok_eof
    \<and> (\<exists>s'. MainLoop (Suc n) (primed input) = Some s'
           \<and> stderr s' = [''ready> ''] \<and> built s' = [])
    \<and> (\<exists>s'. MainLoop (Suc n) (installed input) = Some s'
           \<and> stderr s' = [''ready> ''] \<and> built s' = [])"
proof -
  note b = blank_initial_state [OF assms]
  have 1: "fst (gettok (initial_state input)) = tok_eof"
    and 2: "LastChar (snd (gettok (initial_state input))) = EOF"
    using gettok_blank [OF b(1)] by simp_all
  have 3: "CurTok (primed input) = tok_eof"
    using 1 by (simp add: primed_def CurTok_getNextToken getNextToken_def case_prod_beta)
  have 4: "CurTok (installed input) = tok_eof"
    using gettok_blank [OF b(2)]
    by (simp add: installed_def CurTok_getNextToken getNextToken_def case_prod_beta)
  have 5: "stderr (primed input) = []" "built (primed input) = []"
    by (simp_all add: primed_def initial_state_def)
  have 6: "stderr (installed input) = []" "built (installed input) = []"
    by (simp_all add: installed_def initial_state_def InstallBinaryOperators_def)
  from 1 gettok_at_EOF [OF 2] 3 4 5 6 show ?thesis
    by (simp add: Let_def fprintf_stderr_def)
qed

theorem blank_input_is_end_of_input_witness:
  "only_whitespace_and_comments ('' '' @ [CHR 0x09, CHR 0x0A] @ ''# a comment'' @ [CHR 0x0D] @ ''  #x'')
   \<and> fst (gettok (initial_state ('' '' @ [CHR 0x09, CHR 0x0A] @ ''# a comment'' @ [CHR 0x0D] @ ''  #x''))) = tok_eof
   \<and> CurTok (installed ('' '' @ [CHR 0x09, CHR 0x0A] @ ''# a comment'' @ [CHR 0x0D] @ ''  #x'')) = tok_eof"
proof -
  have a: "only_whitespace_and_comments ('' '' @ [CHR 0x09, CHR 0x0A] @ ''# a comment'' @ [CHR 0x0D] @ ''  #x'')"
    by (simp add: only_whitespace_and_comments_def isspace_def)
  from a blank_input_is_end_of_input [OF a, of 0] show ?thesis by blast
qed

section \<open>More fuel changes nothing\<close>

text \<open>
  A run that did not run out of fuel gives the same result with any larger amount: the
  fuel is a bound of the model, not a parameter of the parser.
\<close>

lemmas parser_simps = ParsePrimary.simps ParseParenExpr.simps ParseIdentifierExpr.simps
  ParseArgs.simps ParseExpression.simps ParseBinOpRHS.simps

lemma more_fuel_aux:
  "(\<forall>s. ParsePrimary n s \<noteq> None \<longrightarrow> ParsePrimary (Suc n) s = ParsePrimary n s)
   \<and> (\<forall>s. ParseParenExpr n s \<noteq> None \<longrightarrow> ParseParenExpr (Suc n) s = ParseParenExpr n s)
   \<and> (\<forall>s. ParseIdentifierExpr n s \<noteq> None \<longrightarrow>
          ParseIdentifierExpr (Suc n) s = ParseIdentifierExpr n s)
   \<and> (\<forall>s args. ParseArgs n args s \<noteq> None \<longrightarrow> ParseArgs (Suc n) args s = ParseArgs n args s)
   \<and> (\<forall>s. ParseExpression n s \<noteq> None \<longrightarrow> ParseExpression (Suc n) s = ParseExpression n s)
   \<and> (\<forall>s p l. ParseBinOpRHS n p l s \<noteq> None \<longrightarrow>
          ParseBinOpRHS (Suc n) p l s = ParseBinOpRHS n p l s)"
proof (induction n)
  case 0
  show ?case by simp
next
  case (Suc n)
  then have IH:
    "\<And>s. ParsePrimary n s \<noteq> None \<Longrightarrow> ParsePrimary (Suc n) s = ParsePrimary n s"
    "\<And>s. ParseParenExpr n s \<noteq> None \<Longrightarrow> ParseParenExpr (Suc n) s = ParseParenExpr n s"
    "\<And>s. ParseIdentifierExpr n s \<noteq> None \<Longrightarrow> ParseIdentifierExpr (Suc n) s = ParseIdentifierExpr n s"
    "\<And>s args. ParseArgs n args s \<noteq> None \<Longrightarrow> ParseArgs (Suc n) args s = ParseArgs n args s"
    "\<And>s. ParseExpression n s \<noteq> None \<Longrightarrow> ParseExpression (Suc n) s = ParseExpression n s"
    "\<And>s p l. ParseBinOpRHS n p l s \<noteq> None \<Longrightarrow> ParseBinOpRHS (Suc n) p l s = ParseBinOpRHS n p l s"
    by blast+
  have c1: "ParsePrimary (Suc (Suc n)) s = ParsePrimary (Suc n) s" if "ParsePrimary (Suc n) s \<noteq> None" for s
    using that [unfolded ParsePrimary.simps(2)]
    by (subst ParsePrimary.simps(2) [of "Suc n" s], subst ParsePrimary.simps(2) [of n s])
       (auto simp: IH Let_def split: option.splits prod.splits if_splits simp del: parser_simps)
  have c2: "ParseParenExpr (Suc (Suc n)) s = ParseParenExpr (Suc n) s" if "ParseParenExpr (Suc n) s \<noteq> None" for s
    using that [unfolded ParseParenExpr.simps(2)]
    by (subst ParseParenExpr.simps(2) [of "Suc n" s], subst ParseParenExpr.simps(2) [of n s])
       (auto simp: IH Let_def split: option.splits prod.splits if_splits simp del: parser_simps)
  have c3: "ParseIdentifierExpr (Suc (Suc n)) s = ParseIdentifierExpr (Suc n) s"
    if "ParseIdentifierExpr (Suc n) s \<noteq> None" for s
    using that [unfolded ParseIdentifierExpr.simps(2)]
    by (subst ParseIdentifierExpr.simps(2) [of "Suc n" s], subst ParseIdentifierExpr.simps(2) [of n s])
       (auto simp: IH Let_def split: option.splits prod.splits if_splits simp del: parser_simps)
  have c4: "ParseArgs (Suc (Suc n)) args s = ParseArgs (Suc n) args s"
    if "ParseArgs (Suc n) args s \<noteq> None" for s args
    using that [unfolded ParseArgs.simps(2)]
    by (subst ParseArgs.simps(2) [of "Suc n" args s], subst ParseArgs.simps(2) [of n args s])
       (auto simp: IH Let_def split: option.splits prod.splits if_splits simp del: parser_simps)
  have c5: "ParseExpression (Suc (Suc n)) s = ParseExpression (Suc n) s"
    if "ParseExpression (Suc n) s \<noteq> None" for s
    using that [unfolded ParseExpression.simps(2)]
    by (subst ParseExpression.simps(2) [of "Suc n" s], subst ParseExpression.simps(2) [of n s])
       (auto simp: IH Let_def split: option.splits prod.splits if_splits simp del: parser_simps)
  have c6: "ParseBinOpRHS (Suc (Suc n)) p l s = ParseBinOpRHS (Suc n) p l s"
    if ne: "ParseBinOpRHS (Suc n) p l s \<noteq> None" for s p l
  proof -
    obtain tokPrec s1 where g1: "GetTokPrecendence s = (tokPrec, s1)"
      by (cases "GetTokPrecendence s")
    define s2 where "s2 = snd (getNextToken s1)"
    define body :: "nat \<Rightarrow> (ExprAST option \<times> state) option" where
      "body k = (case ParsePrimary k s2 of
               None \<Rightarrow> None
             | Some (None, s3) \<Rightarrow> Some (None, s3)
             | Some (Some RHS, s3) \<Rightarrow>
                (case GetTokPrecendence s3 of (nextPrec, s4) \<Rightarrow>
                  (if tokPrec < nextPrec then
                     (case ParseBinOpRHS k (tokPrec + 1) RHS s4 of
                        None \<Rightarrow> None
                      | Some (None, s5) \<Rightarrow> Some (None, s5)
                      | Some (Some RHS', s5) \<Rightarrow>
                          ParseBinOpRHS k p (BinaryExprAST (char_of (CurTok s1)) l RHS')
                            (make_unique BinaryNode s5))
                   else ParseBinOpRHS k p (BinaryExprAST (char_of (CurTok s1)) l RHS)
                          (make_unique BinaryNode s4))))" for k
    have unf: "ParseBinOpRHS (Suc k) p l s =
        (if tokPrec < p then Some (Some l, s1) else body k)" for k
      by (subst ParseBinOpRHS.simps(2)) (simp add: g1 Let_def s2_def body_def del: parser_simps)
    show ?thesis
    proof (cases "tokPrec < p")
      case True
      then show ?thesis by (simp add: unf del: parser_simps)
    next
      case False
      with ne have nb: "body n \<noteq> None" by (simp add: unf del: parser_simps)
      have "body (Suc n) = body n"
      proof (cases "ParsePrimary n s2")
        case None
        with nb show ?thesis by (simp add: body_def)
      next
        case (Some a)
        then have p1: "ParsePrimary (Suc n) s2 = Some a" using IH(1) [of s2] by simp
        obtain x s3 where a: "a = (x, s3)" by (cases a)
        show ?thesis
        proof (cases x)
          case None
          with Some p1 a show ?thesis by (simp add: body_def del: parser_simps)
        next
          case RHS: (Some RHS)
          obtain nextPrec s4 where g2: "GetTokPrecendence s3 = (nextPrec, s4)"
            by (cases "GetTokPrecendence s3")
          show ?thesis
          proof (cases "tokPrec < nextPrec")
            case True
            show ?thesis
            proof (cases "ParseBinOpRHS n (tokPrec + 1) RHS s4")
              case None
              with nb Some a RHS g2 True show ?thesis by (simp add: body_def del: parser_simps)
            next
              case b: (Some b)
              then have b1: "ParseBinOpRHS (Suc n) (tokPrec + 1) RHS s4 = Some b"
                using IH(6) [of "tokPrec + 1" RHS s4] by simp
              obtain y s5 where bb: "b = (y, s5)" by (cases b)
              show ?thesis
              proof (cases y)
                case None
                with Some p1 a RHS g2 True b b1 bb show ?thesis
                  by (simp add: body_def del: parser_simps)
              next
                case (Some RHS')
                with nb \<open>ParsePrimary n s2 = Some a\<close> a RHS g2 True b bb
                have "ParseBinOpRHS n p (BinaryExprAST (char_of (CurTok s1)) l RHS')
                        (make_unique BinaryNode s5) \<noteq> None"
                  by (simp add: body_def del: parser_simps)
                from IH(6) [OF this] Some \<open>ParsePrimary n s2 = Some a\<close> p1 a RHS g2 True b b1 bb
                show ?thesis by (simp add: body_def del: parser_simps)
              qed
            qed
          next
            case F: False
            with nb Some a RHS g2
            have "ParseBinOpRHS n p (BinaryExprAST (char_of (CurTok s1)) l RHS)
                        (make_unique BinaryNode s4) \<noteq> None"
              by (simp add: body_def del: parser_simps)
            from IH(6) [OF this] Some p1 a RHS g2 F show ?thesis
              by (simp add: body_def del: parser_simps)
          qed
        qed
      qed
      with False show ?thesis by (simp add: unf del: parser_simps)
    qed
  qed
  from c1 c2 c3 c4 c5 c6 show ?case by blast
qed


lemma more_fuel:
  shows more_fuel_ParsePrimary:
      "ParsePrimary n s = Some r \<Longrightarrow> ParsePrimary (n + k) s = Some r"
    and more_fuel_ParseExpression:
      "ParseExpression n s = Some r \<Longrightarrow> ParseExpression (n + k) s = Some r"
    and more_fuel_ParseBinOpRHS:
      "ParseBinOpRHS n p l s = Some r \<Longrightarrow> ParseBinOpRHS (n + k) p l s = Some r"
proof -
  show "ParsePrimary n s = Some r \<Longrightarrow> ParsePrimary (n + k) s = Some r"
  proof (induction k)
    case 0
    then show ?case by (simp del: parser_simps)
  next
    case (Suc k)
    with more_fuel_aux [of "n + k"] show ?case by (simp del: parser_simps)
  qed
  show "ParseExpression n s = Some r \<Longrightarrow> ParseExpression (n + k) s = Some r"
  proof (induction k)
    case 0
    then show ?case by (simp del: parser_simps)
  next
    case (Suc k)
    with more_fuel_aux [of "n + k"] show ?case by (simp del: parser_simps)
  qed
  show "ParseBinOpRHS n p l s = Some r \<Longrightarrow> ParseBinOpRHS (n + k) p l s = Some r"
  proof (induction k)
    case 0
    then show ?case by (simp del: parser_simps)
  next
    case (Suc k)
    with more_fuel_aux [of "n + k"] show ?case by (simp del: parser_simps)
  qed
qed

section \<open>Termination of the operator loop\<close>

text \<open>
  The measure of what is left to parse: two for each byte the lexer has still to look at,
  and one for a current token that is not end of input. Reading a token never increases
  it, and decreases it unless the current token is already end of input.
\<close>

definition tokens_left :: "state \<Rightarrow> nat" where
  "tokens_left s = 2 * pending s + (if CurTok s = tok_eof then 0 else 1)"




text \<open>
  \<open>finishes s r\<close>: the run from \<open>s\<close> did not run out of fuel and left no more than it
  found; \<open>consumes s r\<close>: moreover, if it returned a node, it left less.
\<close>

definition finishes :: "state \<Rightarrow> ('a option \<times> state) option \<Rightarrow> bool" where
  "finishes s r = (case r of None \<Rightarrow> False | Some (x, s') \<Rightarrow> tokens_left s' \<le> tokens_left s)"

definition consumes :: "state \<Rightarrow> ('a option \<times> state) option \<Rightarrow> bool" where
  "consumes s r = (case r of None \<Rightarrow> False
     | Some (None, s') \<Rightarrow> tokens_left s' \<le> tokens_left s
     | Some (Some x, s') \<Rightarrow> tokens_left s' < tokens_left s)"

lemma finishes_simps [simp]:
  "\<not> finishes s None" "finishes s (Some (x, s')) = (tokens_left s' \<le> tokens_left s)"
  by (simp_all add: finishes_def)

lemma consumes_simps [simp]:
  "\<not> consumes s None"
  "consumes s (Some (None, s')) = (tokens_left s' \<le> tokens_left s)"
  "consumes s (Some (Some y, s')) = (tokens_left s' < tokens_left s)"
  by (simp_all add: consumes_def)












section \<open>Parentheses\<close>

text \<open>
  \<open>ends_in_comment False cs\<close>: the lexer, started on the characters \<open>cs\<close> outside a
  comment, is inside a \<^verbatim>\<open>#\<close> comment when they are used up; \<open>ends_in_comment True cs\<close>
  is the same for a start inside a comment. Outside a comment every \<^verbatim>\<open>#\<close> begins one,
  and a comment ends at a line feed or a carriage return.
\<close>

fun ends_in_comment :: "bool \<Rightarrow> string \<Rightarrow> bool" where
  "ends_in_comment in_comment [] = in_comment"
| "ends_in_comment False (c # cs) = ends_in_comment (c = CHR ''#'') cs"
| "ends_in_comment True (c # cs) = ends_in_comment (\<not> (c = CHR 0x0A \<or> c = CHR 0x0D)) cs"

text \<open>
  To compare the parse of an input \<open>e\<close> with the parse of \<^verbatim>\<open>(\<close>\<open>e\<close>\<^verbatim>\<open>)\<close>, the run on
  \<open>e\<close> (state \<open>s\<close>) is related to the run inside the parentheses (state \<open>t\<close>).
  \<open>lex_mid\<close>: both lexers look at the same character, outside a comment, \<open>t\<close> has the
  closing parenthesis after the unread input of \<open>s\<close>, and that input does not end in a
  comment, which would run over the parenthesis; \<open>lex_end\<close>: \<open>s\<close> has reached the end
  of its input and \<open>t\<close> looks at the closing parenthesis.
\<close>

definition lex_mid :: "state \<Rightarrow> state \<Rightarrow> bool" where
  "lex_mid s t \<longleftrightarrow>
     LastChar t = LastChar s \<and> stdin t = stdin s @ '')''
     \<and> (\<exists>c. LastChar s = of_char c \<and> \<not> ends_in_comment False (c # stdin s))"

definition lex_end :: "state \<Rightarrow> state \<Rightarrow> bool" where
  "lex_end s t \<longleftrightarrow> LastChar s = EOF \<and> LastChar t = of_char CHR '')'' \<and> stdin t = []"

definition lexrel :: "state \<Rightarrow> state \<Rightarrow> bool" where
  "lexrel s t \<longleftrightarrow>
     IdentifierStr t = IdentifierStr s \<and> NumVal t = NumVal s \<and> (lex_mid s t \<or> lex_end s t)"

lemma lex_updates [simp]:
  "lex_mid (s\<lparr>IdentifierStr := x\<rparr>) (t\<lparr>IdentifierStr := y\<rparr>) = lex_mid s t"
  "lex_end (s\<lparr>IdentifierStr := x\<rparr>) (t\<lparr>IdentifierStr := y\<rparr>) = lex_end s t"
  "lex_mid (s\<lparr>NumVal := v\<rparr>) (t\<lparr>NumVal := w\<rparr>) = lex_mid s t"
  "lex_end (s\<lparr>NumVal := v\<rparr>) (t\<lparr>NumVal := w\<rparr>) = lex_end s t"
  by (simp_all add: lex_mid_def lex_end_def)

lemma of_char_hash: "(of_char c = (35::int)) = (c = CHR ''#'')"
proof -
  have "(of_char c = (of_char CHR ''#'' :: int)) = (c = CHR ''#'')" by (rule of_char_eq_iff)
  then show ?thesis by simp
qed

lemma lex_midD:
  assumes "lex_mid s t"
  shows "LastChar t = LastChar s" "LastChar s \<noteq> EOF" "stdin t = stdin s @ '')''"
proof -
  from assms obtain c where c: "LastChar s = of_char c" by (auto simp: lex_mid_def)
  show "LastChar s \<noteq> EOF" unfolding c by (rule of_char_neq_EOF)
  show "LastChar t = LastChar s" "stdin t = stdin s @ '')''"
    using assms by (simp_all add: lex_mid_def)
qed

lemma read_sim:
  assumes "lex_mid s t" and "LastChar s \<noteq> of_char CHR ''#''"
  shows "lex_mid (read_LastChar s) (read_LastChar t) \<or> lex_end (read_LastChar s) (read_LastChar t)"
proof -
  from assms obtain c where c: "LastChar s = of_char c" "c \<noteq> CHR ''#''"
    and n: "\<not> ends_in_comment False (c # stdin s)" and st: "stdin t = stdin s @ '')''"
    by (auto simp: lex_mid_def of_char_hash)
  from n c(2) have n': "\<not> ends_in_comment False (stdin s)" by simp
  show ?thesis
  proof (cases "stdin s")
    case Nil
    with st show ?thesis
      by (simp add: lex_end_def read_LastChar_def getchar_def)
  next
    case (Cons d ds)
    with st n' have "lex_mid (read_LastChar s) (read_LastChar t)"
      unfolding lex_mid_def by (auto simp: read_LastChar_def getchar_def)
    then show ?thesis ..
  qed
qed

lemma read_frame [simp]:
  "IdentifierStr (read_LastChar s) = IdentifierStr s" "NumVal (read_LastChar s) = NumVal s"
  by (simp_all add: read_LastChar_def getchar_def split: list.splits)

lemma lex_end_stop:
  assumes "lex_end s t"
  shows "\<not> isspace (LastChar s)" "\<not> isspace (LastChar t)"
    "\<not> isalnum (LastChar s)" "\<not> isalnum (LastChar t)"
    "\<not> isalpha (LastChar s)" "\<not> isalpha (LastChar t)"
    "\<not> (isdigit (LastChar s) \<or> LastChar s = of_char CHR ''.'')"
    "\<not> (isdigit (LastChar t) \<or> LastChar t = of_char CHR ''.'')"
    "LastChar s \<noteq> of_char CHR ''#''" "LastChar t \<noteq> of_char CHR ''#''" "LastChar t \<noteq> EOF"
  using assms
  by (simp_all add: lex_end_def isspace_def isalnum_def isalpha_def isdigit_def EOF_def)

lemma skip_whitespace_unfold:
  "isspace (LastChar s) \<Longrightarrow> skip_whitespace s = skip_whitespace (read_LastChar s)"
  "\<not> isspace (LastChar s) \<Longrightarrow> skip_whitespace s = s"
  by (subst skip_whitespace.simps, simp)+

lemma identifier_loop_unfold:
  "isalnum (LastChar (read_LastChar s)) \<Longrightarrow>
     identifier_loop s = identifier_loop ((read_LastChar s)
       \<lparr>IdentifierStr := IdentifierStr s @ [char_of (LastChar (read_LastChar s))]\<rparr>)"
  "\<not> isalnum (LastChar (read_LastChar s)) \<Longrightarrow> identifier_loop s = read_LastChar s"
  by (subst identifier_loop.simps, simp add: Let_def)+

lemma number_loop_unfold:
  "isdigit (LastChar (read_LastChar s)) \<or> LastChar (read_LastChar s) = of_char CHR ''.'' \<Longrightarrow>
     number_loop n s = number_loop (n @ [char_of (LastChar s)]) (read_LastChar s)"
  "\<not> (isdigit (LastChar (read_LastChar s)) \<or> LastChar (read_LastChar s) = of_char CHR ''.'') \<Longrightarrow>
     number_loop n s = (n @ [char_of (LastChar s)], read_LastChar s)"
  by (subst number_loop.simps, simp add: Let_def)+

lemma comment_loop_unfold:
  "LastChar (read_LastChar s) \<noteq> EOF \<and> LastChar (read_LastChar s) \<noteq> 10
     \<and> LastChar (read_LastChar s) \<noteq> 13 \<Longrightarrow> comment_loop s = comment_loop (read_LastChar s)"
  "\<not> (LastChar (read_LastChar s) \<noteq> EOF \<and> LastChar (read_LastChar s) \<noteq> 10
     \<and> LastChar (read_LastChar s) \<noteq> 13) \<Longrightarrow> comment_loop s = read_LastChar s"
proof -
  show "comment_loop s = comment_loop (read_LastChar s)"
    if "LastChar (read_LastChar s) \<noteq> EOF \<and> LastChar (read_LastChar s) \<noteq> 10
     \<and> LastChar (read_LastChar s) \<noteq> 13"
    using that by (subst comment_loop.simps [of s]) (simp add: Let_def)
  show "comment_loop s = read_LastChar s"
    if "\<not> (LastChar (read_LastChar s) \<noteq> EOF \<and> LastChar (read_LastChar s) \<noteq> 10
     \<and> LastChar (read_LastChar s) \<noteq> 13)"
    using that by (subst comment_loop.simps [of s]) (auto simp add: Let_def)
qed

lemma skip_whitespace_IdentifierStr [simp]:
  "IdentifierStr (skip_whitespace s) = IdentifierStr s"
proof (induction s rule: skip_whitespace.induct)
  case (1 s)
  then show ?case by (cases "isspace (LastChar s)") (simp_all add: skip_whitespace_unfold)
qed

lemma skip_whitespace_NumVal [simp]: "NumVal (skip_whitespace s) = NumVal s"
  by (rule frame_skip_whitespace) simp_all

lemma comment_loop_IdentifierStr [simp]:
  "IdentifierStr (comment_loop s) = IdentifierStr s"
proof (induction s rule: comment_loop.induct)
  case (1 s)
  then show ?case
    by (cases "LastChar (read_LastChar s) \<noteq> EOF \<and> LastChar (read_LastChar s) \<noteq> 10
                \<and> LastChar (read_LastChar s) \<noteq> 13")
       (simp_all add: comment_loop_unfold)
qed

lemma comment_loop_NumVal [simp]: "NumVal (comment_loop s) = NumVal s"
  by (rule frame_comment_loop) simp_all

lemma number_loop_IdentifierStr [simp]:
  "IdentifierStr (snd (number_loop n s)) = IdentifierStr s"
proof (induction n s rule: number_loop.induct)
  case (1 n s)
  then show ?case
    by (cases "isdigit (LastChar (read_LastChar s)) \<or> LastChar (read_LastChar s) = of_char CHR ''.''")
       (simp_all add: number_loop_unfold)
qed

lemma identifier_loop_NumVal [simp]: "NumVal (identifier_loop s) = NumVal s"
  by (rule frame_identifier_loop) simp_all

lemma not_hash:
  "isspace c \<Longrightarrow> c \<noteq> of_char CHR ''#''"
  "isalnum c \<Longrightarrow> c \<noteq> of_char CHR ''#''"
  "isalpha c \<Longrightarrow> c \<noteq> of_char CHR ''#''"
  "isdigit c \<or> c = of_char CHR ''.'' \<Longrightarrow> c \<noteq> of_char CHR ''#''"
  by (auto simp: isspace_def isalnum_def isalpha_def isdigit_def)

lemma skip_sim:
  "lex_mid s t \<Longrightarrow>
     lex_mid (skip_whitespace s) (skip_whitespace t) \<or> lex_end (skip_whitespace s) (skip_whitespace t)"
proof (induction s arbitrary: t rule: skip_whitespace.induct)
  case (1 s)
  have eq: "LastChar t = LastChar s" using "1.prems" by (rule lex_midD)
  show ?case
  proof (cases "isspace (LastChar s)")
    case True
    from read_sim [OF "1.prems" not_hash(1) [OF True]] show ?thesis
    proof
      assume "lex_mid (read_LastChar s) (read_LastChar t)"
      from "1.IH" [OF True this] True eq show ?thesis
        by (simp add: skip_whitespace_unfold(1) [of s] skip_whitespace_unfold(1) [of t])
    next
      assume e: "lex_end (read_LastChar s) (read_LastChar t)"
      have "skip_whitespace (read_LastChar s) = read_LastChar s"
        "skip_whitespace (read_LastChar t) = read_LastChar t"
        using lex_end_stop(1,2) [OF e] by (simp_all add: skip_whitespace_unfold(2))
      with e True eq show ?thesis
        by (simp add: skip_whitespace_unfold(1) [of s] skip_whitespace_unfold(1) [of t])
    qed
  next
    case False
    with eq "1.prems" show ?thesis by (simp add: skip_whitespace_unfold(2))
  qed
qed

lemma identifier_loop_sim:
  "lex_mid s t \<Longrightarrow> LastChar s \<noteq> of_char CHR ''#'' \<Longrightarrow> IdentifierStr t = IdentifierStr s \<Longrightarrow>
     (lex_mid (identifier_loop s) (identifier_loop t) \<or> lex_end (identifier_loop s) (identifier_loop t))
     \<and> IdentifierStr (identifier_loop t) = IdentifierStr (identifier_loop s)"
proof (induction s arbitrary: t rule: identifier_loop.induct)
  case (1 s)
  from read_sim [OF "1.prems"(1,2)] show ?case
  proof
    assume m: "lex_mid (read_LastChar s) (read_LastChar t)"
    then have eq: "LastChar (read_LastChar t) = LastChar (read_LastChar s)"
      by (rule lex_midD)
    show ?thesis
    proof (cases "isalnum (LastChar (read_LastChar s))")
      case True
      from "1.IH" [OF refl True, of "(read_LastChar t)
         \<lparr>IdentifierStr := IdentifierStr t @ [char_of (LastChar (read_LastChar t))]\<rparr>"]
        m True eq "1.prems"(3) not_hash(2) [OF True]
      show ?thesis by (simp add: identifier_loop_unfold)
    next
      case False
      with m eq "1.prems"(3) show ?thesis by (simp add: identifier_loop_unfold)
    qed
  next
    assume e: "lex_end (read_LastChar s) (read_LastChar t)"
    with lex_end_stop(3,4) [OF e] "1.prems"(3) show ?thesis
      by (simp add: identifier_loop_unfold)
  qed
qed

lemma number_loop_sim:
  "lex_mid s t \<Longrightarrow> LastChar s \<noteq> of_char CHR ''#'' \<Longrightarrow>
     (lex_mid (snd (number_loop n s)) (snd (number_loop n t))
        \<or> lex_end (snd (number_loop n s)) (snd (number_loop n t)))
     \<and> fst (number_loop n t) = fst (number_loop n s)"
proof (induction n s arbitrary: t rule: number_loop.induct)
  case (1 n s)
  have eq0: "LastChar t = LastChar s" using "1.prems"(1) by (rule lex_midD)
  from read_sim [OF "1.prems"] show ?case
  proof
    assume m: "lex_mid (read_LastChar s) (read_LastChar t)"
    then have eq: "LastChar (read_LastChar t) = LastChar (read_LastChar s)"
      by (rule lex_midD)
    show ?thesis
    proof (cases "isdigit (LastChar (read_LastChar s)) \<or> LastChar (read_LastChar s) = of_char CHR ''.''")
      case True
      from "1.IH" [OF refl refl True m not_hash(4) [OF True]] True eq eq0 show ?thesis
        by (simp add: number_loop_unfold)
    next
      case False
      with m eq eq0 show ?thesis by (simp add: number_loop_unfold)
    qed
  next
    assume e: "lex_end (read_LastChar s) (read_LastChar t)"
    with lex_end_stop(7,8) [OF e] eq0 show ?thesis
      by (simp add: number_loop_unfold)
  qed
qed

lemma of_char_newline:
  "(of_char c = (10::int)) = (c = CHR 0x0A)" "(of_char c = (13::int)) = (c = CHR 0x0D)"
  by (rule of_char_10_13)+

lemma comment_loop_sim:
  "stdin t = stdin s @ '')'' \<Longrightarrow> \<not> ends_in_comment True (stdin s) \<Longrightarrow>
     lex_mid (comment_loop s) (comment_loop t)"
proof (induction s arbitrary: t rule: comment_loop.induct)
  case (1 s)
  from "1.prems"(2) obtain d ds where sd: "stdin s = d # ds" by (cases "stdin s") auto
  then have rs: "read_LastChar s = s\<lparr>stdin := ds, LastChar := of_char d\<rparr>"
    by (simp add: read_LastChar_def getchar_def)
  from sd "1.prems"(1) have rt: "read_LastChar t = t\<lparr>stdin := ds @ '')'', LastChar := of_char d\<rparr>"
    by (simp add: read_LastChar_def getchar_def)
  show ?case
  proof (cases "d = CHR 0x0A \<or> d = CHR 0x0D")
    case True
    then have stop: "\<not> (LastChar (read_LastChar s) \<noteq> EOF \<and> LastChar (read_LastChar s) \<noteq> 10
        \<and> LastChar (read_LastChar s) \<noteq> 13)"
      "\<not> (LastChar (read_LastChar t) \<noteq> EOF \<and> LastChar (read_LastChar t) \<noteq> 10
        \<and> LastChar (read_LastChar t) \<noteq> 13)"
      by (auto simp: rs rt)
    from True sd "1.prems"(2) have "\<not> ends_in_comment False ds" by auto
    with True have "\<not> ends_in_comment False (d # ds)" by auto
    then have "lex_mid (read_LastChar s) (read_LastChar t)"
      unfolding lex_mid_def by (auto simp: rs rt)
    then show ?thesis by (simp add: comment_loop_unfold(2) [OF stop(1)] comment_loop_unfold(2) [OF stop(2)])
  next
    case False
    then have go: "LastChar (read_LastChar s) \<noteq> EOF \<and> LastChar (read_LastChar s) \<noteq> 10
        \<and> LastChar (read_LastChar s) \<noteq> 13"
      "LastChar (read_LastChar t) \<noteq> EOF \<and> LastChar (read_LastChar t) \<noteq> 10
        \<and> LastChar (read_LastChar t) \<noteq> 13"
      by (simp_all add: rs rt of_char_neq_EOF of_char_newline)
    from False sd "1.prems"(2) have "\<not> ends_in_comment True (stdin (read_LastChar s))"
      by (simp add: rs)
    moreover have "stdin (read_LastChar t) = stdin (read_LastChar s) @ '')''"
      by (simp add: rs rt)
    ultimately have "lex_mid (comment_loop (read_LastChar s)) (comment_loop (read_LastChar t))"
      using "1.IH" [OF refl go(1)] by blast
    then show ?thesis by (simp add: comment_loop_unfold(1) [OF go(1)] comment_loop_unfold(1) [OF go(2)])
  qed
qed

text \<open>What one call of \<open>gettok\<close> does to two related states.\<close>

definition tok_sim :: "int \<times> state \<Rightarrow> int \<times> state \<Rightarrow> bool" where
  "tok_sim a b \<longleftrightarrow>
     (fst b = fst a \<and> fst a \<noteq> tok_eof \<and> lexrel (snd a) (snd b))
     \<or> (fst a = tok_eof \<and> fst b = of_char CHR '')''
        \<and> LastChar (snd a) = EOF \<and> LastChar (snd b) = EOF
        \<and> IdentifierStr (snd b) = IdentifierStr (snd a) \<and> NumVal (snd b) = NumVal (snd a))"

lemma gettok_unfold:
  "gettok s0 =
     (let s = skip_whitespace s0 in
      if isalpha (LastChar s) then
        (let s1 = identifier_loop (s\<lparr>IdentifierStr := [char_of (LastChar s)]\<rparr>) in
         if IdentifierStr s1 = ''def'' then (tok_def, s1)
         else if IdentifierStr s1 = ''extern'' then (tok_extern, s1)
         else (tok_identifier, s1))
      else if isdigit (LastChar s) \<or> LastChar s = of_char CHR ''.'' then
        (case number_loop [] s of
           (NumStr, s1) \<Rightarrow> (tok_number, s1\<lparr>NumVal := strtod NumStr\<rparr>))
      else if LastChar s = of_char CHR ''#'' then
        (let s1 = comment_loop s in
         if LastChar s1 \<noteq> EOF then gettok s1 else gettok_rest s1)
      else gettok_rest s)"
  by (rule gettok.simps)

lemma gettok_end:
  assumes e: "lex_end s t" and i: "IdentifierStr t = IdentifierStr s" "NumVal t = NumVal s"
  shows "tok_sim (gettok s) (gettok t)"
proof -
  have "skip_whitespace s = s" "skip_whitespace t = t"
    using lex_end_stop(1,2) [OF e] by (simp_all add: skip_whitespace_unfold)
  then have "gettok s = gettok_rest s" "gettok t = gettok_rest t"
    using lex_end_stop [OF e] by (simp_all add: gettok_unfold Let_def)
  moreover have "gettok_rest s = (tok_eof, s)"
    using e by (simp add: gettok_rest_def lex_end_def)
  moreover have "gettok_rest t = (of_char CHR '')'', t\<lparr>LastChar := EOF\<rparr>)"
    using e by (simp add: gettok_rest_def lex_end_def Let_def read_LastChar_def getchar_def EOF_def)
  ultimately show ?thesis using e i by (simp add: tok_sim_def lex_end_def)
qed

lemma skip_whitespace_idem: "skip_whitespace (skip_whitespace s) = skip_whitespace s"
proof (induction s rule: skip_whitespace.induct)
  case (1 s)
  then show ?case by (cases "isspace (LastChar s)") (simp_all add: skip_whitespace_unfold)
qed

lemma gettok_after_skip: "gettok (skip_whitespace s) = gettok s"
  by (simp add: gettok_unfold [of s] gettok_unfold [of "skip_whitespace s"] skip_whitespace_idem)

lemma gettok_sim:
  "lexrel s0 t0 \<Longrightarrow> tok_sim (gettok s0) (gettok t0)"
proof (induction s0 arbitrary: t0 rule: gettok.induct)
  case (1 s0)
  from "1.prems" have i0: "IdentifierStr t0 = IdentifierStr s0" "NumVal t0 = NumVal s0"
    by (simp_all add: lexrel_def)
  from "1.prems" have "lex_mid s0 t0 \<or> lex_end s0 t0" by (simp add: lexrel_def)
  then show ?case
  proof
    assume e: "lex_end s0 t0"
    then show ?thesis using i0 by (rule gettok_end)
  next
    assume m0: "lex_mid s0 t0"
    define s where "s = skip_whitespace s0"
    define t where "t = skip_whitespace t0"
    have i: "IdentifierStr t = IdentifierStr s" "NumVal t = NumVal s"
      using i0 by (simp_all add: s_def t_def)
    have gs: "gettok s = gettok s0" "gettok t = gettok t0"
      by (simp_all add: s_def t_def gettok_after_skip)
    from skip_sim [OF m0] have "lex_mid s t \<or> lex_end s t" by (simp add: s_def t_def)
    then show ?thesis
    proof
      assume "lex_end s t"
      then have "tok_sim (gettok s) (gettok t)" using i by (rule gettok_end)
      then show ?thesis by (simp add: gs)
    next
      assume m: "lex_mid s t"
      then have eq: "LastChar t = LastChar s" and ne: "LastChar s \<noteq> EOF"
        by (rule lex_midD)+
      have sk: "skip_whitespace s0 = s" "skip_whitespace t0 = t" by (simp_all add: s_def t_def)
      consider (ident) "isalpha (LastChar s)"
        | (num) "\<not> isalpha (LastChar s)" "isdigit (LastChar s) \<or> LastChar s = of_char CHR ''.''"
        | (comment) "\<not> isalpha (LastChar s)"
            "\<not> (isdigit (LastChar s) \<or> LastChar s = of_char CHR ''.'')"
            "LastChar s = of_char CHR ''#''"
        | (other) "\<not> isalpha (LastChar s)"
            "\<not> (isdigit (LastChar s) \<or> LastChar s = of_char CHR ''.'')"
            "LastChar s \<noteq> of_char CHR ''#''"
        by blast
      then show ?thesis
      proof cases
        case ident
        define s1 where "s1 = identifier_loop (s\<lparr>IdentifierStr := [char_of (LastChar s)]\<rparr>)"
        define t1 where "t1 = identifier_loop (t\<lparr>IdentifierStr := [char_of (LastChar t)]\<rparr>)"
        have "(lex_mid s1 t1 \<or> lex_end s1 t1) \<and> IdentifierStr t1 = IdentifierStr s1"
          unfolding s1_def t1_def using m eq not_hash(3) [OF ident]
          by (intro identifier_loop_sim) simp_all
        moreover have "NumVal t1 = NumVal s1" using i by (simp add: s1_def t1_def)
        ultimately have l: "lexrel s1 t1" and ie: "IdentifierStr t1 = IdentifierStr s1"
          by (simp_all add: lexrel_def)
        have "gettok s0 = (if IdentifierStr s1 = ''def'' then (tok_def, s1)
           else if IdentifierStr s1 = ''extern'' then (tok_extern, s1) else (tok_identifier, s1))"
          using ident by (simp add: gettok_unfold [of s0] sk Let_def s1_def)
        moreover have "gettok t0 = (if IdentifierStr t1 = ''def'' then (tok_def, t1)
           else if IdentifierStr t1 = ''extern'' then (tok_extern, t1) else (tok_identifier, t1))"
          using ident eq by (simp add: gettok_unfold [of t0] sk Let_def t1_def)
        ultimately show ?thesis using l ie
          by (simp add: tok_sim_def tok_def_def tok_extern_def tok_identifier_def tok_eof_def)
      next
        case num
        obtain ns s1 where rs: "number_loop [] s = (ns, s1)" by (cases "number_loop [] s")
        obtain nt t1 where rt: "number_loop [] t = (nt, t1)" by (cases "number_loop [] t")
        from number_loop_sim [OF m not_hash(4) [OF num(2)], of "[]"] rs rt
        have l: "lex_mid s1 t1 \<or> lex_end s1 t1" and ne: "nt = ns" by simp_all
        have "IdentifierStr t1 = IdentifierStr s1"
          using number_loop_IdentifierStr [of "[]" s] number_loop_IdentifierStr [of "[]" t] rs rt i
          by simp
        with l have lr: "lexrel (s1\<lparr>NumVal := strtod ns\<rparr>) (t1\<lparr>NumVal := strtod ns\<rparr>)"
          by (simp add: lexrel_def)
        have "gettok s0 = (tok_number, s1\<lparr>NumVal := strtod ns\<rparr>)"
          using num rs by (simp add: gettok_unfold [of s0] sk Let_def)
        moreover have "gettok t0 = (tok_number, t1\<lparr>NumVal := strtod ns\<rparr>)"
          using num rt eq ne by (simp add: gettok_unfold [of t0] sk Let_def)
        ultimately show ?thesis using lr by (simp add: tok_sim_def tok_number_def tok_eof_def)
      next
        case comment
        define s1 where "s1 = comment_loop s"
        define t1 where "t1 = comment_loop t"
        from m comment(3) have "\<not> ends_in_comment True (stdin s)"
          by (auto simp: lex_mid_def of_char_hash)
        with lex_midD(3) [OF m] have m1: "lex_mid s1 t1"
          unfolding s1_def t1_def by (rule comment_loop_sim)
        then have ne1: "LastChar s1 \<noteq> EOF" and eq1: "LastChar t1 = LastChar s1"
          by (rule lex_midD)+
        have l1: "lexrel s1 t1" using m1 i by (simp add: lexrel_def s1_def t1_def)
        have "gettok s0 = gettok s1"
          using comment ne1 by (simp add: gettok_unfold [of s0] sk Let_def s1_def)
        moreover have "gettok t0 = gettok t1"
          using comment ne1 eq eq1 by (simp add: gettok_unfold [of t0] sk Let_def t1_def)
        moreover have "tok_sim (gettok s1) (gettok t1)"
          using "1.IH" [OF s_def comment s1_def ne1 l1] .
        ultimately show ?thesis by simp
      next
        case other
        have "gettok s0 = (LastChar s, read_LastChar s)"
          using other ne by (simp add: gettok_unfold [of s0] sk Let_def gettok_rest_def)
        moreover have "gettok t0 = (LastChar s, read_LastChar t)"
          using other ne eq by (simp add: gettok_unfold [of t0] sk Let_def gettok_rest_def)
        moreover have "lexrel (read_LastChar s) (read_LastChar t)"
          using read_sim [OF m other(3)] i by (simp add: lexrel_def)
        ultimately show ?thesis using ne by (simp add: tok_sim_def tok_eof_def EOF_def)
      qed
    qed
  qed
qed

text \<open>
  How the precedence tables of the two runs are related. Either both are empty (the
  operators are not installed), or both are installed and agree except at the closing
  parenthesis, which a query may have inserted with the value 0 in either.
\<close>

definition tables_agree :: "(char \<rightharpoonup> int) \<Rightarrow> (char \<rightharpoonup> int) \<Rightarrow> bool" where
  "tables_agree m m' \<longleftrightarrow>
     (m = Map.empty \<and> m' = Map.empty)
     \<or> (m \<noteq> Map.empty \<and> m' \<noteq> Map.empty
        \<and> (\<forall>c. c \<noteq> CHR '')'' \<longrightarrow> m' c = m c)
        \<and> (\<forall>v. m CHR '')'' = Some v \<longrightarrow> v \<le> 0)
        \<and> (\<forall>v. m' CHR '')'' = Some v \<longrightarrow> v \<le> 0))"

definition paren_table :: "state \<Rightarrow> state \<Rightarrow> bool" where
  "paren_table s t \<longleftrightarrow> tables_agree (BinopPrecedence s) (BinopPrecedence t)"

text \<open>
  The two runs have constructed the same objects; with the operators installed they have
  also written the same to standard error. (While the table is empty a query at the
  closing parenthesis logs the "not installed" message, a query at end of input does
  not.)
\<close>

definition common :: "state \<Rightarrow> state \<Rightarrow> bool" where
  "common s t \<longleftrightarrow>
     built t = built s \<and> paren_table s t
     \<and> (BinaryOperatorsInstalled s \<longrightarrow> stderr t = stderr s)"

text \<open>
  \<open>open_sim\<close>: both runs are at the same token inside \<open>e\<close>; \<open>closed_sim\<close>: the run on
  \<open>e\<close> is at end of input, the other at the closing parenthesis.
\<close>

definition open_sim :: "state \<Rightarrow> state \<Rightarrow> bool" where
  "open_sim s t \<longleftrightarrow> common s t \<and> lexrel s t \<and> CurTok t = CurTok s \<and> CurTok s \<noteq> tok_eof"

definition closed_sim :: "state \<Rightarrow> state \<Rightarrow> bool" where
  "closed_sim s t \<longleftrightarrow>
     common s t \<and> IdentifierStr t = IdentifierStr s \<and> NumVal t = NumVal s
     \<and> LastChar s = EOF \<and> LastChar t = EOF
     \<and> CurTok s = tok_eof \<and> CurTok t = of_char CHR '')''"

definition sim :: "state \<Rightarrow> state \<Rightarrow> bool" where
  "sim s t \<longleftrightarrow> open_sim s t \<or> closed_sim s t"

lemma BinopPrecedence_gettok [simp]: "BinopPrecedence (snd (gettok s)) = BinopPrecedence s"
  by (rule frame_gettok) simp_all

lemma stderr_gettok [simp]: "stderr (snd (gettok s)) = stderr s"
  by (rule frame_gettok) simp_all

lemma built_gettok [simp]: "built (snd (gettok s)) = built s"
  by (rule frame_gettok) simp_all

lemma lexrel_CurTok [simp]: "lexrel (s\<lparr>CurTok := a\<rparr>) (t\<lparr>CurTok := b\<rparr>) = lexrel s t"
  by (simp add: lexrel_def lex_mid_def lex_end_def)

lemma lexrel_frame:
  assumes "lexrel s t"
    and "stdin s' = stdin s" "LastChar s' = LastChar s" "IdentifierStr s' = IdentifierStr s"
      "NumVal s' = NumVal s"
    and "stdin t' = stdin t" "LastChar t' = LastChar t" "IdentifierStr t' = IdentifierStr t"
      "NumVal t' = NumVal t"
  shows "lexrel s' t'"
  using assms by (simp add: lexrel_def lex_mid_def lex_end_def)

lemma common_frame:
  assumes "common s t"
    and "built s' = built s" "built t' = built t"
    and "BinopPrecedence s' = BinopPrecedence s" "BinopPrecedence t' = BinopPrecedence t"
    and "stderr s' = stderr s" "stderr t' = stderr t"
  shows "common s' t'"
  using assms by (simp add: common_def paren_table_def BinaryOperatorsInstalled_def)

lemma getNextToken_sim:
  assumes c: "common s t" and l: "lexrel s t"
  shows "sim (snd (getNextToken s)) (snd (getNextToken t))"
proof -
  obtain a s' where gs: "gettok s = (a, s')" by (cases "gettok s")
  obtain b t' where gt: "gettok t = (b, t')" by (cases "gettok t")
  have fr: "stderr s' = stderr s" "built s' = built s" "BinopPrecedence s' = BinopPrecedence s"
    "stderr t' = stderr t" "built t' = built t" "BinopPrecedence t' = BinopPrecedence t"
    using stderr_gettok [of s] built_gettok [of s] BinopPrecedence_gettok [of s]
      stderr_gettok [of t] built_gettok [of t] BinopPrecedence_gettok [of t] gs gt
    by simp_all
  have c': "common (s'\<lparr>CurTok := a\<rparr>) (t'\<lparr>CurTok := b\<rparr>)"
    using c by (rule common_frame) (simp_all add: fr)
  from gettok_sim [OF l] gs gt c' show ?thesis
    by (auto simp: tok_sim_def sim_def open_sim_def closed_sim_def getNextToken_def)
qed

lemma make_unique_common: "common s t \<Longrightarrow> common (make_unique k s) (make_unique k t)"
  by (simp add: common_def paren_table_def BinaryOperatorsInstalled_def make_unique_def)

lemma make_unique_lexrel: "lexrel s t \<Longrightarrow> lexrel (make_unique k s) (make_unique k t)"
  by (erule lexrel_frame) (simp_all add: make_unique_def)

lemma make_unique_sim:
  "open_sim s t \<Longrightarrow> open_sim (make_unique k s) (make_unique k t)"
  "closed_sim s t \<Longrightarrow> closed_sim (make_unique k s) (make_unique k t)"
  "sim s t \<Longrightarrow> sim (make_unique k s) (make_unique k t)"
proof -
  show o: "open_sim (make_unique k s) (make_unique k t)" if "open_sim s t" for s t
    using that make_unique_common [of s t k] make_unique_lexrel [of s t k]
    by (simp add: open_sim_def) (simp add: make_unique_def)
  show c: "closed_sim (make_unique k s) (make_unique k t)" if "closed_sim s t" for s t
    using that make_unique_common [of s t k]
    by (simp add: closed_sim_def) (simp add: make_unique_def)
  show "sim (make_unique k s) (make_unique k t)" if "sim s t"
    using that o c by (auto simp: sim_def)
qed

lemma GetTokPrecendence_installed:
  assumes "BinaryOperatorsInstalled s"
  shows "snd (GetTokPrecendence s) =
     s\<lparr>BinopPrecedence :=
         (if isascii (CurTok s) \<and> BinopPrecedence s (char_of (CurTok s)) = None
          then (BinopPrecedence s)(char_of (CurTok s) \<mapsto> 0) else BinopPrecedence s)\<rparr>"
    and "fst (GetTokPrecendence s) =
     (if isascii (CurTok s) then
        (case BinopPrecedence s (char_of (CurTok s)) of
           None \<Rightarrow> -1 | Some v \<Rightarrow> if v \<le> 0 then -1 else v)
      else -1)"
  using assms
  by (auto simp: GetTokPrecendence_def BinopPrecedence_subscript_def split: option.splits)

lemma GetTokPrecendence_uninstalled:
  assumes "\<not> BinaryOperatorsInstalled s"
  shows "GetTokPrecendence s =
     (if isascii (CurTok s)
      then (-2, s\<lparr>stderr := stderr s @ [''Error: Binary operators are not installed yet.'' @ [CHR 0x0A]]\<rparr>)
      else (-1, s))"
  using assms by (simp add: GetTokPrecendence_def LogError_def fprintf_stderr_def)

lemma char_of_41: "char_of (41::int) = CHR '')''"
  by (simp add: char_of_def)

text \<open>What \<open>GetTokPrecendence\<close> does with an installed table, on the table alone.\<close>

definition table_after_query :: "(char \<rightharpoonup> int) \<Rightarrow> int \<Rightarrow> (char \<rightharpoonup> int)" where
  "table_after_query m c =
     (if isascii c \<and> m (char_of c) = None then m(char_of c \<mapsto> 0) else m)"

definition precedence_in :: "(char \<rightharpoonup> int) \<Rightarrow> int \<Rightarrow> int" where
  "precedence_in m c =
     (if isascii c then
        (case m (char_of c) of None \<Rightarrow> -1 | Some v \<Rightarrow> if v \<le> 0 then -1 else v)
      else -1)"

lemma GetTokPrecendence_installed':
  assumes "BinaryOperatorsInstalled s"
  shows "GetTokPrecendence s =
     (precedence_in (BinopPrecedence s) (CurTok s),
      s\<lparr>BinopPrecedence := table_after_query (BinopPrecedence s) (CurTok s)\<rparr>)"
  using GetTokPrecendence_installed [OF assms]
  by (simp add: prod_eq_iff table_after_query_def precedence_in_def)

lemma table_after_query_nonempty: "m \<noteq> Map.empty \<Longrightarrow> table_after_query m c \<noteq> Map.empty"
proof -
  assume "m \<noteq> Map.empty"
  then obtain x where "m x \<noteq> None" by (auto simp: fun_eq_iff)
  then have "table_after_query m c x \<noteq> None" by (auto simp: table_after_query_def)
  then show ?thesis by (auto simp: fun_eq_iff)
qed

lemma tables_agreeD:
  assumes "tables_agree m m'" and "m \<noteq> Map.empty"
  shows "m' \<noteq> Map.empty" "\<And>x. x \<noteq> CHR '')'' \<Longrightarrow> m' x = m x"
    "\<And>v. m CHR '')'' = Some v \<Longrightarrow> v \<le> 0" "\<And>v. m' CHR '')'' = Some v \<Longrightarrow> v \<le> 0"
  using assms by (simp_all add: tables_agree_def)

lemma tables_agreeI:
  assumes "m \<noteq> Map.empty" "m' \<noteq> Map.empty" "\<And>x. x \<noteq> CHR '')'' \<Longrightarrow> m' x = m x"
    "\<And>v. m CHR '')'' = Some v \<Longrightarrow> v \<le> 0" "\<And>v. m' CHR '')'' = Some v \<Longrightarrow> v \<le> 0"
  shows "tables_agree m m'"
  using assms by (simp add: tables_agree_def)

lemma tables_agree_installed_iff:
  "tables_agree m m' \<Longrightarrow> (m' = Map.empty) = (m = Map.empty)"
  by (auto simp: tables_agree_def)

lemma tables_agree_same_token:
  assumes "tables_agree m m'" and ne: "m \<noteq> Map.empty"
  shows "tables_agree (table_after_query m c) (table_after_query m' c)"
    and "precedence_in m' c = precedence_in m c"
proof -
  note d = tables_agreeD [OF assms]
  note ne' = d(1) and ag = d(2) and p1 = d(3) and p2 = d(4)
  show "precedence_in m' c = precedence_in m c"
  proof (cases "char_of c = CHR '')''")
    case True
    then show ?thesis using p1 p2
      by (auto simp: precedence_in_def split: option.splits)
  next
    case False
    then show ?thesis using ag [OF False] by (simp add: precedence_in_def)
  qed
  show "tables_agree (table_after_query m c) (table_after_query m' c)"
  proof (rule tables_agreeI)
    show "table_after_query m c \<noteq> Map.empty" using ne by (rule table_after_query_nonempty)
    show "table_after_query m' c \<noteq> Map.empty" using ne' by (rule table_after_query_nonempty)
    show "table_after_query m' c x = table_after_query m c x" if "x \<noteq> CHR '')''" for x
      using ag [OF that] ag [of "char_of c"] that by (auto simp: table_after_query_def)
    show "v \<le> 0" if "table_after_query m c CHR '')'' = Some v" for v
      using that p1 [of v] by (auto simp: table_after_query_def split: if_splits)
    show "v \<le> 0" if "table_after_query m' c CHR '')'' = Some v" for v
      using that p2 [of v] by (auto simp: table_after_query_def split: if_splits)
  qed
qed

lemma tables_agree_closing:
  assumes "tables_agree m m'" and ne: "m \<noteq> Map.empty"
  shows "tables_agree (table_after_query m tok_eof) (table_after_query m' (of_char CHR '')''))"
    and "precedence_in m tok_eof = -1" and "precedence_in m' (of_char CHR '')'') = -1"
proof -
  note d = tables_agreeD [OF assms]
  note ne' = d(1) and ag = d(2) and p1 = d(3) and p2 = d(4)
  have a: "table_after_query m tok_eof = m"
    by (simp add: table_after_query_def isascii_def tok_eof_def)
  have b: "table_after_query m' (of_char CHR '')'') =
      (if m' CHR '')'' = None then m'(CHR '')'' \<mapsto> 0) else m')"
    by (simp add: table_after_query_def isascii_def char_of_41)
  show "tables_agree (table_after_query m tok_eof) (table_after_query m' (of_char CHR '')''))"
    unfolding a b
  proof (rule tables_agreeI)
    show "m \<noteq> Map.empty" by (rule ne)
    show "(if m' CHR '')'' = None then m'(CHR '')'' \<mapsto> 0) else m') \<noteq> Map.empty"
      using ne' by (auto simp: fun_eq_iff)
    show "(if m' CHR '')'' = None then m'(CHR '')'' \<mapsto> 0) else m') x = m x" if "x \<noteq> CHR '')''" for x
      using ag [OF that] that by simp
    show "v \<le> 0" if "m CHR '')'' = Some v" for v using that by (rule p1)
    show "v \<le> 0" if "(if m' CHR '')'' = None then m'(CHR '')'' \<mapsto> 0) else m') CHR '')'' = Some v" for v
      using that p2 [of v] by (auto split: if_splits)
  qed
  show "precedence_in m tok_eof = -1"
    by (simp add: precedence_in_def isascii_def tok_eof_def)
  show "precedence_in m' (of_char CHR '')'') = -1"
    using p2 by (auto simp: precedence_in_def isascii_def char_of_41 split: option.splits)
qed

lemma simD:
  assumes "sim s t"
  shows "common s t" "paren_table s t" "BinaryOperatorsInstalled t = BinaryOperatorsInstalled s"
  using assms
  by (auto simp: sim_def open_sim_def closed_sim_def common_def paren_table_def
        BinaryOperatorsInstalled_def dest: tables_agree_installed_iff)

lemma GetTokPrecendence_sim:
  assumes "sim s t"
  shows "open_sim s t \<Longrightarrow> fst (GetTokPrecendence t) = fst (GetTokPrecendence s)"
    and "closed_sim s t \<Longrightarrow> fst (GetTokPrecendence s) < 0 \<and> fst (GetTokPrecendence t) < 0"
    and "open_sim s t \<Longrightarrow> open_sim (snd (GetTokPrecendence s)) (snd (GetTokPrecendence t))"
    and "closed_sim s t \<Longrightarrow> closed_sim (snd (GetTokPrecendence s)) (snd (GetTokPrecendence t))"
proof -
  note d = simD [OF assms]
  have ta: "tables_agree (BinopPrecedence s) (BinopPrecedence t)"
    using d(2) by (simp add: paren_table_def)
  have o: "CurTok t = CurTok s" "lexrel s t" "CurTok s \<noteq> tok_eof" if "open_sim s t"
    using that by (simp_all add: open_sim_def)
  have c: "CurTok s = tok_eof" "CurTok t = of_char CHR '')''"
    "IdentifierStr t = IdentifierStr s" "NumVal t = NumVal s" "LastChar s = EOF" "LastChar t = EOF"
    if "closed_sim s t"
    using that by (simp_all add: closed_sim_def)
  have na: "\<not> isascii tok_eof" "isascii (of_char CHR '')'')"
    by (simp_all add: isascii_def tok_eof_def)
  show "fst (GetTokPrecendence t) = fst (GetTokPrecendence s)"
    "open_sim (snd (GetTokPrecendence s)) (snd (GetTokPrecendence t))" if os: "open_sim s t"
  proof -
    note o' = o [OF os]
    show "fst (GetTokPrecendence t) = fst (GetTokPrecendence s)"
    proof (cases "BinaryOperatorsInstalled s")
      case True
      then have i_t: "BinaryOperatorsInstalled t" by (simp add: d(3))
      from True have ne: "BinopPrecedence s \<noteq> Map.empty" by (simp add: BinaryOperatorsInstalled_def)
      from tables_agree_same_token(2) [OF ta ne] o'(1) show ?thesis
        by (simp add: GetTokPrecendence_installed' [OF True] GetTokPrecendence_installed' [OF i_t])
    next
      case False
      then have i_t: "\<not> BinaryOperatorsInstalled t" by (simp add: d(3))
      from o'(1) show ?thesis
        by (simp add: GetTokPrecendence_uninstalled [OF False] GetTokPrecendence_uninstalled [OF i_t])
    qed
    show "open_sim (snd (GetTokPrecendence s)) (snd (GetTokPrecendence t))"
    proof (cases "BinaryOperatorsInstalled s")
      case True
      then have i_t: "BinaryOperatorsInstalled t" by (simp add: d(3))
      from True have ne: "BinopPrecedence s \<noteq> Map.empty" by (simp add: BinaryOperatorsInstalled_def)
      let ?s = "s\<lparr>BinopPrecedence := table_after_query (BinopPrecedence s) (CurTok s)\<rparr>"
      let ?t = "t\<lparr>BinopPrecedence := table_after_query (BinopPrecedence t) (CurTok s)\<rparr>"
      have "common ?s ?t"
        using d(1) True tables_agree_same_token(1) [OF ta ne, of "CurTok s"]
          table_after_query_nonempty [OF ne, of "CurTok s"]
        by (simp add: common_def paren_table_def BinaryOperatorsInstalled_def)
      moreover have "lexrel ?s ?t" using o'(2) by (rule lexrel_frame) simp_all
      ultimately have "open_sim ?s ?t" using o'(1,3) by (simp add: open_sim_def)
      with o'(1) show ?thesis
        by (simp add: GetTokPrecendence_installed' [OF True] GetTokPrecendence_installed' [OF i_t])
    next
      case False
      then have i_t: "\<not> BinaryOperatorsInstalled t" by (simp add: d(3))
      let ?m = "''Error: Binary operators are not installed yet.'' @ [CHR 0x0A]"
      let ?s = "s\<lparr>stderr := stderr s @ [?m]\<rparr>"
      let ?t = "t\<lparr>stderr := stderr t @ [?m]\<rparr>"
      have "common ?s ?t"
        using d(1) False by (simp add: common_def paren_table_def BinaryOperatorsInstalled_def)
      moreover have "lexrel ?s ?t" using o'(2) by (rule lexrel_frame) simp_all
      ultimately have "open_sim ?s ?t" using o'(1,3) by (simp add: open_sim_def)
      with os o'(1) show ?thesis
        by (simp add: GetTokPrecendence_uninstalled [OF False] GetTokPrecendence_uninstalled [OF i_t])
    qed
  qed
  show "fst (GetTokPrecendence s) < 0 \<and> fst (GetTokPrecendence t) < 0" if cs: "closed_sim s t"
  proof (cases "BinaryOperatorsInstalled s")
    case True
    then have i_t: "BinaryOperatorsInstalled t" by (simp add: d(3))
    from True have ne: "BinopPrecedence s \<noteq> Map.empty" by (simp add: BinaryOperatorsInstalled_def)
    from tables_agree_closing(2,3) [OF ta ne] c(1,2) [OF cs] show ?thesis
      by (simp add: GetTokPrecendence_installed' [OF True] GetTokPrecendence_installed' [OF i_t])
  next
    case False
    then have i_t: "\<not> BinaryOperatorsInstalled t" by (simp add: d(3))
    from c(1,2) [OF cs] na show ?thesis
      by (simp add: GetTokPrecendence_uninstalled [OF False] GetTokPrecendence_uninstalled [OF i_t])
  qed
  show "closed_sim (snd (GetTokPrecendence s)) (snd (GetTokPrecendence t))" if cs: "closed_sim s t"
  proof (cases "BinaryOperatorsInstalled s")
    case True
    then have i_t: "BinaryOperatorsInstalled t" by (simp add: d(3))
    from True have ne: "BinopPrecedence s \<noteq> Map.empty" by (simp add: BinaryOperatorsInstalled_def)
    let ?s = "s\<lparr>BinopPrecedence := table_after_query (BinopPrecedence s) tok_eof\<rparr>"
    let ?t = "t\<lparr>BinopPrecedence := table_after_query (BinopPrecedence t) (of_char CHR '')'')\<rparr>"
    have "common ?s ?t"
      using d(1) True tables_agree_closing(1) [OF ta ne]
        table_after_query_nonempty [OF ne, of tok_eof]
      by (simp add: common_def paren_table_def BinaryOperatorsInstalled_def)
    then have "closed_sim ?s ?t" using c [OF cs] by (simp add: closed_sim_def)
    with c(1,2) [OF cs] show ?thesis
      by (simp add: GetTokPrecendence_installed' [OF True] GetTokPrecendence_installed' [OF i_t])
  next
    case False
    then have i_t: "\<not> BinaryOperatorsInstalled t" by (simp add: d(3))
    let ?m = "''Error: Binary operators are not installed yet.'' @ [CHR 0x0A]"
    let ?t = "t\<lparr>stderr := stderr t @ [?m]\<rparr>"
    have "common s ?t"
      using d(1) False by (simp add: common_def paren_table_def BinaryOperatorsInstalled_def)
    then have "closed_sim s ?t" using c [OF cs] by (simp add: closed_sim_def)
    with c(1,2) [OF cs] na show ?thesis
      by (simp add: GetTokPrecendence_uninstalled [OF False] GetTokPrecendence_uninstalled [OF i_t])
  qed
qed

lemma GetTokPrecendence_nonneg:
  "0 \<le> fst (GetTokPrecendence s) \<Longrightarrow> CurTok s \<noteq> tok_eof"
  by (auto simp: GetTokPrecendence_def isascii_def tok_eof_def split: if_splits)

lemmas CurTok_GetTokPrecendence [simp] = CurTok_after_query


lemma at_end_of_input_no_node:
  assumes "CurTok s = tok_eof"
  shows "ParsePrimary n s \<noteq> Some (Some r, s')"
    and "ParseExpression n s \<noteq> Some (Some r, s')"
    and "ParseArgs n args s \<noteq> Some (Some rs, s')"
proof -
  have p: "ParsePrimary n s \<noteq> Some (Some r, s')" for n r s'
    using assms
    by (cases n) (simp_all add: tok_eof_def tok_identifier_def tok_number_def)
  then show "ParsePrimary n s \<noteq> Some (Some r, s')" .
  have e: "ParseExpression n s \<noteq> Some (Some r, s')" for n r s'
  proof (cases n)
    case 0
    then show ?thesis by simp
  next
    case (Suc m)
    show ?thesis
    proof (cases "ParsePrimary m s")
      case None
      with Suc show ?thesis by (simp del: ParsePrimary.simps)
    next
      case (Some a)
      obtain x s1 where a: "a = (x, s1)" by (cases a)
      with Some p [of m _ s1] have "x = None" by (cases x) auto
      with Suc Some a show ?thesis by (simp del: ParsePrimary.simps)
    qed
  qed
  then show "ParseExpression n s \<noteq> Some (Some r, s')" .
  show "ParseArgs n args s \<noteq> Some (Some rs, s')"
  proof (cases n)
    case 0
    then show ?thesis by simp
  next
    case (Suc m)
    show ?thesis
    proof (cases "ParseExpression m s")
      case None
      with Suc show ?thesis by (simp del: ParseExpression.simps)
    next
      case (Some a)
      obtain x s1 where a: "a = (x, s1)" by (cases a)
      with Some e [of m _ s1] have "x = None" by (cases x) auto
      with Suc Some a show ?thesis by (simp del: ParseExpression.simps)
    qed
  qed
qed

lemma ParseArgs_stops_at_parenthesis:
  "ParseArgs n args s = Some (Some rs, s') \<Longrightarrow> CurTok s' = of_char CHR '')''"
proof (induction n arbitrary: args s)
  case 0
  then show ?case by simp
next
  case (Suc n)
  then show ?case
    by (auto simp: Let_def split: option.splits if_splits simp del: ParseExpression.simps)
qed

text \<open>If the run on \<open>e\<close> returned a node, the other run returned the same node.\<close>

definition sim_res :: "('a option \<times> state) option \<Rightarrow> ('a option \<times> state) option \<Rightarrow> bool" where
  "sim_res a b \<longleftrightarrow> (\<forall>r s'. a = Some (Some r, s') \<longrightarrow> (\<exists>t'. b = Some (Some r, t') \<and> sim s' t'))"

lemma sim_resI:
  "(\<And>r s'. a = Some (Some r, s') \<Longrightarrow> \<exists>t'. b = Some (Some r, t') \<and> sim s' t') \<Longrightarrow> sim_res a b"
  by (simp add: sim_res_def)

lemma sim_resD:
  "sim_res a b \<Longrightarrow> a = Some (Some r, s') \<Longrightarrow> \<exists>t'. b = Some (Some r, t') \<and> sim s' t'"
  by (simp add: sim_res_def)

lemma sim_open: "sim s t \<Longrightarrow> CurTok s \<noteq> tok_eof \<Longrightarrow> open_sim s t"
  by (auto simp: sim_def closed_sim_def)

lemma open_simD:
  assumes "open_sim s t"
  shows "common s t" "lexrel s t" "CurTok t = CurTok s" "CurTok s \<noteq> tok_eof"
    "IdentifierStr t = IdentifierStr s" "NumVal t = NumVal s" "sim s t"
  using assms by (simp_all add: open_sim_def lexrel_def sim_def)

lemma next_sim: "open_sim s t \<Longrightarrow> sim (snd (getNextToken s)) (snd (getNextToken t))"
  by (rule getNextToken_sim) (simp_all add: open_simD)

lemma sim_CurTok:
  "sim s t \<Longrightarrow> CurTok t = CurTok s \<or> (CurTok s = tok_eof \<and> CurTok t = of_char CHR '')'')"
  by (auto simp: sim_def open_sim_def closed_sim_def)


lemma parser_sim_aux:
  "(\<forall>s t. sim s t \<longrightarrow> sim_res (ParsePrimary n s) (ParsePrimary n t))
   \<and> (\<forall>s t. open_sim s t \<longrightarrow> sim_res (ParseParenExpr n s) (ParseParenExpr n t))
   \<and> (\<forall>s t. open_sim s t \<longrightarrow> sim_res (ParseIdentifierExpr n s) (ParseIdentifierExpr n t))
   \<and> (\<forall>s t args. sim s t \<longrightarrow> sim_res (ParseArgs n args s) (ParseArgs n args t))
   \<and> (\<forall>s t. sim s t \<longrightarrow> sim_res (ParseExpression n s) (ParseExpression n t))
   \<and> (\<forall>s t p l. sim s t \<longrightarrow> 0 \<le> p \<longrightarrow>
         sim_res (ParseBinOpRHS n p l s) (ParseBinOpRHS n p l t))"
proof (induction n)
  case 0
  show ?case by (simp add: sim_res_def)
next
  case (Suc n)
  then have P: "\<And>s t. sim s t \<Longrightarrow> sim_res (ParsePrimary n s) (ParsePrimary n t)"
    and Pa: "\<And>s t. open_sim s t \<Longrightarrow> sim_res (ParseParenExpr n s) (ParseParenExpr n t)"
    and I: "\<And>s t. open_sim s t \<Longrightarrow> sim_res (ParseIdentifierExpr n s) (ParseIdentifierExpr n t)"
    and A: "\<And>s t args. sim s t \<Longrightarrow> sim_res (ParseArgs n args s) (ParseArgs n args t)"
    and E: "\<And>s t. sim s t \<Longrightarrow> sim_res (ParseExpression n s) (ParseExpression n t)"
    and B: "\<And>s t p l. sim s t \<Longrightarrow> 0 \<le> p \<Longrightarrow>
              sim_res (ParseBinOpRHS n p l s) (ParseBinOpRHS n p l t)"
    by blast+
  have c1: "sim_res (ParsePrimary (Suc n) s) (ParsePrimary (Suc n) t)" if st: "sim s t" for s t
  proof (rule sim_resI)
    fix r s'
    assume eq: "ParsePrimary (Suc n) s = Some (Some r, s')"
    then have "CurTok s \<noteq> tok_eof"
      using at_end_of_input_no_node(1) [of s "Suc n" r s'] by blast
    with st have os: "open_sim s t" by (rule sim_open)
    note d = open_simD [OF os]
    consider (ident) "CurTok s = tok_identifier"
      | (num) "CurTok s \<noteq> tok_identifier" "CurTok s = tok_number"
      | (paren) "CurTok s \<noteq> tok_identifier" "CurTok s \<noteq> tok_number" "CurTok s = of_char CHR ''(''"
      | (other) "CurTok s \<noteq> tok_identifier" "CurTok s \<noteq> tok_number" "CurTok s \<noteq> of_char CHR ''(''"
      by blast
    then show "\<exists>t'. ParsePrimary (Suc n) t = Some (Some r, t') \<and> sim s' t'"
    proof cases
      case ident
      with eq have "ParseIdentifierExpr n s = Some (Some r, s')" by simp
      from sim_resD [OF I [OF os] this] ident d(3) show ?thesis by simp
    next
      case num
      have "sim (snd (getNextToken (make_unique NumberNode s)))
                (snd (getNextToken (make_unique NumberNode t)))"
        using os by (intro next_sim make_unique_sim)
      with eq num d(3) d(6) show ?thesis
        by (simp add: ParseNumberExpr_def Let_def)
    next
      case paren
      with eq have "ParseParenExpr n s = Some (Some r, s')" by simp
      from sim_resD [OF Pa [OF os] this] paren d(3) show ?thesis by simp
    next
      case other
      with eq show ?thesis by simp
    qed
  qed
  have c2: "sim_res (ParseParenExpr (Suc n) s) (ParseParenExpr (Suc n) t)" if os: "open_sim s t" for s t
  proof (rule sim_resI)
    fix r s'
    assume eq: "ParseParenExpr (Suc n) s = Some (Some r, s')"
    define s1 where "s1 = snd (getNextToken s)"
    define t1 where "t1 = snd (getNextToken t)"
    have s1: "sim s1 t1" unfolding s1_def t1_def using os by (rule next_sim)
    from eq obtain s2 where e: "ParseExpression n s1 = Some (Some r, s2)"
      and c: "CurTok s2 = of_char CHR '')''" and s': "s' = snd (getNextToken s2)"
      by (auto simp: Let_def s1_def [symmetric] split: option.splits if_splits
               simp del: ParseExpression.simps)
    from sim_resD [OF E [OF s1] e] obtain t2
      where et: "ParseExpression n t1 = Some (Some r, t2)" and s2: "sim s2 t2" by blast
    from s2 c have o2: "open_sim s2 t2" by (intro sim_open) (simp_all add: tok_eof_def)
    from o2 have "sim (snd (getNextToken s2)) (snd (getNextToken t2))" by (rule next_sim)
    with et c open_simD(3) [OF o2] s' show "\<exists>t'. ParseParenExpr (Suc n) t = Some (Some r, t') \<and> sim s' t'"
      by (simp add: Let_def t1_def [symmetric] del: ParseExpression.simps)
  qed
  have c3: "sim_res (ParseIdentifierExpr (Suc n) s) (ParseIdentifierExpr (Suc n) t)"
    if os: "open_sim s t" for s t
  proof (rule sim_resI)
    fix r s'
    assume eq: "ParseIdentifierExpr (Suc n) s = Some (Some r, s')"
    define s1 where "s1 = snd (getNextToken s)"
    define t1 where "t1 = snd (getNextToken t)"
    define s2 where "s2 = snd (getNextToken s1)"
    define t2 where "t2 = snd (getNextToken t1)"
    have s1: "sim s1 t1" unfolding s1_def t1_def using os by (rule next_sim)
    note i = open_simD(5) [OF os]
    show "\<exists>t'. ParseIdentifierExpr (Suc n) t = Some (Some r, t') \<and> sim s' t'"
    proof (cases "CurTok s1 \<noteq> of_char CHR ''(''")
      case True
      with sim_CurTok [OF s1] have "CurTok t1 \<noteq> of_char CHR ''(''" by auto
      with True eq i make_unique_sim(3) [OF s1, of VariableNode] show ?thesis
        by (auto simp: Let_def s1_def [symmetric] t1_def [symmetric])
    next
      case False
      then have o1: "open_sim s1 t1" using s1 by (intro sim_open) (simp_all add: tok_eof_def)
      then have s2: "sim s2 t2" unfolding s2_def t2_def by (rule next_sim)
      from False open_simD(3) [OF o1] have ct1: "CurTok t1 = of_char CHR ''(''" by simp
      show ?thesis
      proof (cases "CurTok s2 \<noteq> of_char CHR '')''")
        case True
        with False eq obtain args s3 where a: "ParseArgs n [] s2 = Some (Some args, s3)"
          and r: "r = CallExprAST (IdentifierStr s) args"
          and s': "s' = make_unique CallNode (snd (getNextToken s3))"
          by (auto simp: Let_def s1_def [symmetric] s2_def [symmetric] split: option.splits
                   simp del: ParseArgs.simps)
        from a have "CurTok s2 \<noteq> tok_eof"
          using at_end_of_input_no_node(3) [of s2 n "[]" args s3] by blast
        with s2 have o2: "open_sim s2 t2" by (rule sim_open)
        with True have ct2: "CurTok t2 \<noteq> of_char CHR '')''" by (simp add: open_simD(3))
        from sim_resD [OF A [OF s2] a] obtain t3
          where at: "ParseArgs n [] t2 = Some (Some args, t3)" and s3: "sim s3 t3" by blast
        from ParseArgs_stops_at_parenthesis [OF a] s3 have "open_sim s3 t3"
          by (intro sim_open) (simp_all add: tok_eof_def)
        then have "sim (make_unique CallNode (snd (getNextToken s3)))
                       (make_unique CallNode (snd (getNextToken t3)))"
          by (intro make_unique_sim next_sim)
        with ct1 ct2 at r s' i show ?thesis
          by (simp add: Let_def t1_def [symmetric] t2_def [symmetric] del: ParseArgs.simps)
      next
        case F2: False
        then have o2: "open_sim s2 t2" using s2 by (intro sim_open) (simp_all add: tok_eof_def)
        with F2 have ct2: "CurTok t2 = of_char CHR '')''" by (simp add: open_simD(3))
        from o2 have "sim (make_unique CallNode (snd (getNextToken s2)))
                          (make_unique CallNode (snd (getNextToken t2)))"
          by (intro make_unique_sim next_sim)
        with False F2 eq ct1 ct2 i show ?thesis
          by (auto simp: Let_def s1_def [symmetric] s2_def [symmetric] t1_def [symmetric]
                t2_def [symmetric])
      qed
    qed
  qed
  have c4: "sim_res (ParseArgs (Suc n) args s) (ParseArgs (Suc n) args t)" if st: "sim s t" for s t args
  proof (rule sim_resI)
    fix r s'
    assume eq: "ParseArgs (Suc n) args s = Some (Some r, s')"
    then obtain arg s1 where e: "ParseExpression n s = Some (Some arg, s1)"
      by (auto split: option.splits simp del: ParseExpression.simps)
    from sim_resD [OF E [OF st] e] obtain t1
      where et: "ParseExpression n t = Some (Some arg, t1)" and s1: "sim s1 t1" by blast
    show "\<exists>t'. ParseArgs (Suc n) args t = Some (Some r, t') \<and> sim s' t'"
    proof (cases "CurTok s1 = of_char CHR '')''")
      case True
      then have "open_sim s1 t1" using s1 by (intro sim_open) (simp_all add: tok_eof_def)
      with True have "CurTok t1 = of_char CHR '')''" by (simp add: open_simD(3))
      with True eq e et s1 show ?thesis by (simp add: Let_def del: ParseExpression.simps)
    next
      case False
      with eq [unfolded ParseArgs.simps(2)] e have comma: "CurTok s1 = of_char CHR '',''"
        and rec: "ParseArgs n (args @ [arg]) (snd (getNextToken s1)) = Some (Some r, s')"
        by (auto simp: Let_def split: if_splits simp del: ParseExpression.simps ParseArgs.simps)
      from comma s1 have o1: "open_sim s1 t1" by (intro sim_open) (simp_all add: tok_eof_def)
      from comma o1 have ct: "CurTok t1 = of_char CHR '',''" by (simp add: open_simD(3))
      from sim_resD [OF A [OF next_sim [OF o1]] rec] et ct show ?thesis
        by (subst ParseArgs.simps(2)) (simp add: Let_def del: ParseExpression.simps ParseArgs.simps)
    qed
  qed
  have c5: "sim_res (ParseExpression (Suc n) s) (ParseExpression (Suc n) t)" if st: "sim s t" for s t
  proof (rule sim_resI)
    fix r s'
    assume eq: "ParseExpression (Suc n) s = Some (Some r, s')"
    then obtain l s1 where p: "ParsePrimary n s = Some (Some l, s1)"
      and b: "ParseBinOpRHS n 0 l s1 = Some (Some r, s')"
      by (auto split: option.splits simp del: ParsePrimary.simps ParseBinOpRHS.simps)
    from sim_resD [OF P [OF st] p] obtain t1
      where pt: "ParsePrimary n t = Some (Some l, t1)" and s1: "sim s1 t1" by blast
    from sim_resD [OF B [OF s1] b] pt
    show "\<exists>t'. ParseExpression (Suc n) t = Some (Some r, t') \<and> sim s' t'"
      by (simp del: ParsePrimary.simps ParseBinOpRHS.simps)
  qed
  have c6: "sim_res (ParseBinOpRHS (Suc n) p l s) (ParseBinOpRHS (Suc n) p l t)"
    if st: "sim s t" and p0: "0 \<le> p" for s t p l
  proof (rule sim_resI)
    fix r s'
    assume eq: "ParseBinOpRHS (Suc n) p l s = Some (Some r, s')"
    obtain tokPrec s1 where g1: "GetTokPrecendence s = (tokPrec, s1)"
      by (cases "GetTokPrecendence s")
    obtain tokPrec' t1 where g1t: "GetTokPrecendence t = (tokPrec', t1)"
      by (cases "GetTokPrecendence t")
    have s1: "sim s1 t1"
      using st GetTokPrecendence_sim(3,4) [OF st] g1 g1t by (auto simp: sim_def)
    show "\<exists>t'. ParseBinOpRHS (Suc n) p l t = Some (Some r, t') \<and> sim s' t'"
    proof (cases "tokPrec < p")
      case True
      have "tokPrec' < p"
        using st unfolding sim_def
      proof
        assume "open_sim s t"
        from GetTokPrecendence_sim(1) [OF st this] g1 g1t True show ?thesis by simp
      next
        assume "closed_sim s t"
        from GetTokPrecendence_sim(2) [OF st this] g1t p0 show ?thesis by simp
      qed
      with True eq g1 g1t s1 show ?thesis by simp
    next
      case False
      with p0 have "0 \<le> fst (GetTokPrecendence s)" using g1 by simp
      then have ne: "CurTok s \<noteq> tok_eof" by (rule GetTokPrecendence_nonneg)
      with st have o0: "open_sim s t" by (rule sim_open)
      have tp: "tokPrec' = tokPrec" using GetTokPrecendence_sim(1) [OF st o0] g1 g1t by simp
      from ne have "CurTok s1 \<noteq> tok_eof" using CurTok_GetTokPrecendence [of s] g1 by simp
      with s1 have o1: "open_sim s1 t1" by (rule sim_open)
      define s2 where "s2 = snd (getNextToken s1)"
      define t2 where "t2 = snd (getNextToken t1)"
      have s2: "sim s2 t2" unfolding s2_def t2_def using o1 by (rule next_sim)
      have unf_s: "ParseBinOpRHS (Suc n) p l s =
        (case ParsePrimary n s2 of
               None \<Rightarrow> None
             | Some (None, s3) \<Rightarrow> Some (None, s3)
             | Some (Some RHS, s3) \<Rightarrow>
                (case GetTokPrecendence s3 of (nextPrec, s4) \<Rightarrow>
                  (if tokPrec < nextPrec then
                     (case ParseBinOpRHS n (tokPrec + 1) RHS s4 of
                        None \<Rightarrow> None
                      | Some (None, s5) \<Rightarrow> Some (None, s5)
                      | Some (Some RHS', s5) \<Rightarrow>
                          ParseBinOpRHS n p (BinaryExprAST (char_of (CurTok s1)) l RHS')
                            (make_unique BinaryNode s5))
                   else ParseBinOpRHS n p (BinaryExprAST (char_of (CurTok s1)) l RHS)
                          (make_unique BinaryNode s4))))"
        using g1 False
        by (subst ParseBinOpRHS.simps(2))
           (simp add: Let_def s2_def del: ParsePrimary.simps ParseBinOpRHS.simps)
      have unf_t: "ParseBinOpRHS (Suc n) p l t =
        (case ParsePrimary n t2 of
               None \<Rightarrow> None
             | Some (None, s3) \<Rightarrow> Some (None, s3)
             | Some (Some RHS, s3) \<Rightarrow>
                (case GetTokPrecendence s3 of (nextPrec, s4) \<Rightarrow>
                  (if tokPrec < nextPrec then
                     (case ParseBinOpRHS n (tokPrec + 1) RHS s4 of
                        None \<Rightarrow> None
                      | Some (None, s5) \<Rightarrow> Some (None, s5)
                      | Some (Some RHS', s5) \<Rightarrow>
                          ParseBinOpRHS n p (BinaryExprAST (char_of (CurTok t1)) l RHS')
                            (make_unique BinaryNode s5))
                   else ParseBinOpRHS n p (BinaryExprAST (char_of (CurTok t1)) l RHS)
                          (make_unique BinaryNode s4))))"
        using g1t tp False
        by (subst ParseBinOpRHS.simps(2))
           (simp add: Let_def t2_def del: ParsePrimary.simps ParseBinOpRHS.simps)
      have ct: "CurTok t1 = CurTok s1" by (rule open_simD(3) [OF o1])
      from eq obtain RHS s3 where pr: "ParsePrimary n s2 = Some (Some RHS, s3)"
        unfolding unf_s by (auto split: option.splits)
      from sim_resD [OF P [OF s2] pr] obtain t3
        where prt: "ParsePrimary n t2 = Some (Some RHS, t3)" and s3: "sim s3 t3" by blast
      obtain nextPrec s4 where g2: "GetTokPrecendence s3 = (nextPrec, s4)"
        by (cases "GetTokPrecendence s3")
      obtain nextPrec' t4 where g2t: "GetTokPrecendence t3 = (nextPrec', t4)"
        by (cases "GetTokPrecendence t3")
      from False p0 have tp0: "0 \<le> tokPrec" by simp
      have np: "(tokPrec < nextPrec') = (tokPrec < nextPrec)"
        using s3 unfolding sim_def
      proof
        assume "open_sim s3 t3"
        from GetTokPrecendence_sim(1) [OF s3 this] g2 g2t show ?thesis by simp
      next
        assume "closed_sim s3 t3"
        from GetTokPrecendence_sim(2) [OF s3 this] g2 g2t tp0 show ?thesis by simp
      qed
      have s4: "sim s4 t4"
        using s3 GetTokPrecendence_sim(3,4) [OF s3] g2 g2t by (auto simp: sim_def)
      show ?thesis
      proof (cases "tokPrec < nextPrec")
        case True
        with eq pr g2 obtain RHS' s5
          where b1: "ParseBinOpRHS n (tokPrec + 1) RHS s4 = Some (Some RHS', s5)"
            and b2: "ParseBinOpRHS n p (BinaryExprAST (char_of (CurTok s1)) l RHS')
                       (make_unique BinaryNode s5) = Some (Some r, s')"
          unfolding unf_s by (auto split: option.splits)
        from tp0 have "0 \<le> tokPrec + 1" by simp
        from sim_resD [OF B [OF s4 this] b1] obtain t5
          where b1t: "ParseBinOpRHS n (tokPrec + 1) RHS t4 = Some (Some RHS', t5)"
            and s5: "sim s5 t5" by blast
        from True np have npt: "tokPrec < nextPrec'" by simp
        from sim_resD [OF B [OF make_unique_sim(3) [OF s5] p0] b2] prt g2t npt b1t ct
        show ?thesis unfolding unf_t by simp
      next
        case F: False
        with eq pr g2
        have b2: "ParseBinOpRHS n p (BinaryExprAST (char_of (CurTok s1)) l RHS)
                       (make_unique BinaryNode s4) = Some (Some r, s')"
          unfolding unf_s by simp
        from F np have npt: "\<not> tokPrec < nextPrec'" by simp
        from sim_resD [OF B [OF make_unique_sim(3) [OF s4] p0] b2] prt g2t npt ct
        show ?thesis unfolding unf_t by simp
      qed
    qed
  qed
  from c1 c2 c3 c4 c5 c6 show ?case by blast
qed

lemma parser_sim_ParseExpression:
  "sim s t \<Longrightarrow> ParseExpression n s = Some (Some r, s') \<Longrightarrow>
     \<exists>t'. ParseExpression n t = Some (Some r, t') \<and> sim s' t'"
  using parser_sim_aux [of n] by (blast dest: sim_resD)

lemma gettok_skips_space: "isspace (LastChar s) \<Longrightarrow> gettok s = gettok (read_LastChar s)"
  by (simp add: gettok_unfold [of s] gettok_unfold [of "read_LastChar s"] skip_whitespace_unfold(1))

text \<open>
  The start of the two runs, from a state \<open>i\<close> in which nothing has been read yet
  (\<^verbatim>\<open>LastChar\<close> is the blank it is initialised with).
\<close>

lemma start_parenthesised:
  assumes sp: "LastChar i = of_char CHR '' ''"
  shows "snd (getNextToken (i\<lparr>stdin := ''('' @ e @ '')''\<rparr>)) =
     (read_LastChar (i\<lparr>stdin := e @ '')''\<rparr>))\<lparr>CurTok := of_char CHR ''(''\<rparr>"
proof -
  define i' where "i' = i\<lparr>stdin := ''('' @ e @ '')''\<rparr>"
  define j where "j = read_LastChar i'"
  have j: "j = i\<lparr>stdin := e @ '')'', LastChar := of_char CHR ''(''\<rparr>"
    by (simp add: j_def i'_def read_LastChar_def getchar_def)
  have "isspace (LastChar i')" by (simp add: i'_def sp isspace_def)
  then have "gettok i' = gettok j" unfolding j_def by (rule gettok_skips_space)
  also have "\<dots> = (of_char CHR ''('', read_LastChar j)"
  proof -
    have lj: "LastChar j = of_char CHR ''(''" by (simp add: j)
    then have "skip_whitespace j = j" by (simp add: skip_whitespace_unfold(2) isspace_def)
    with lj show ?thesis
      by (simp add: gettok_unfold [of j] isalpha_def isdigit_def Let_def gettok_rest_def EOF_def)
  qed
  finally have "snd (getNextToken i') = (read_LastChar j)\<lparr>CurTok := of_char CHR ''(''\<rparr>"
    by (simp add: getNextToken_def)
  also have "read_LastChar j = read_LastChar (i\<lparr>stdin := e @ '')''\<rparr>)"
    by (simp add: j read_LastChar_def getchar_def split: list.splits)
  finally show ?thesis by (simp add: i'_def)
qed

lemma start_sim:
  assumes sp: "LastChar i = of_char CHR '' ''" and e: "stdin i = e"
    and nc: "\<not> ends_in_comment False e"
    and ta: "tables_agree (BinopPrecedence i) (BinopPrecedence i)"
  shows "sim (snd (getNextToken i))
             (snd (getNextToken (snd (getNextToken (i\<lparr>stdin := ''('' @ e @ '')''\<rparr>)))))"
proof -
  define u where "u = read_LastChar i"
  define v where "v = (read_LastChar (i\<lparr>stdin := e @ '')''\<rparr>))\<lparr>CurTok := of_char CHR ''(''\<rparr>"
  have "isspace (LastChar i)" by (simp add: sp isspace_def)
  then have "gettok i = gettok u" unfolding u_def by (rule gettok_skips_space)
  then have s0: "snd (getNextToken i) = snd (getNextToken u)"
    by (simp add: getNextToken_def)
  have t0: "snd (getNextToken (i\<lparr>stdin := ''('' @ e @ '')''\<rparr>)) = v"
    unfolding v_def using sp by (rule start_parenthesised)
  have tu: "BinopPrecedence u = BinopPrecedence i" "stderr u = stderr i" "built u = built i"
    "IdentifierStr u = IdentifierStr i" "NumVal u = NumVal i"
    by (simp_all add: u_def read_LastChar_def getchar_def split: list.splits)
  have tv: "BinopPrecedence v = BinopPrecedence i" "stderr v = stderr i" "built v = built i"
    "IdentifierStr v = IdentifierStr i" "NumVal v = NumVal i"
    by (simp_all add: v_def read_LastChar_def getchar_def split: list.splits)
  have c: "common u v"
    using ta by (simp add: common_def paren_table_def tu tv)
  have "lex_mid u v \<or> lex_end u v"
  proof (cases e)
    case Nil
    then show ?thesis
      by (simp add: lex_end_def u_def v_def read_LastChar_def getchar_def e)
  next
    case (Cons a as)
    with nc have "lex_mid u v"
      unfolding lex_mid_def by (auto simp: u_def v_def read_LastChar_def getchar_def e)
    then show ?thesis ..
  qed
  then have l: "lexrel u v" by (simp add: lexrel_def tu tv)
  from c l have "sim (snd (getNextToken u)) (snd (getNextToken v))" by (rule getNextToken_sim)
  then show ?thesis by (simp only: s0 t0)
qed

lemma parenthesised_run:
  assumes sp: "LastChar i = of_char CHR '' ''" and e: "stdin i = e"
    and nc: "\<not> ends_in_comment False e"
    and ta: "tables_agree (BinopPrecedence i) (BinopPrecedence i)"
    and run: "ParseExpression n (snd (getNextToken i)) = Some (Some x, s')"
    and all: "CurTok s' = tok_eof"
  shows "\<exists>s''. ParseExpression (n + 3 + k) (snd (getNextToken (i\<lparr>stdin := ''('' @ e @ '')''\<rparr>)))
                  = Some (Some x, s'')
          \<and> CurTok s'' = tok_eof \<and> built s'' = built s'
          \<and> (BinaryOperatorsInstalled s' \<longrightarrow> stderr s'' = stderr s')"
proof -
  define t0 where "t0 = snd (getNextToken (i\<lparr>stdin := ''('' @ e @ '')''\<rparr>))"
  define t1 where "t1 = snd (getNextToken t0)"
  have c0: "CurTok t0 = of_char CHR ''(''"
    unfolding t0_def start_parenthesised [OF sp] by simp
  have "sim (snd (getNextToken i)) t1"
    unfolding t1_def t0_def using sp e nc ta by (rule start_sim)
  from parser_sim_ParseExpression [OF this run] obtain t'
    where e: "ParseExpression n t1 = Some (Some x, t')" and s: "sim s' t'" by blast
  from s all have cs: "closed_sim s' t'" by (auto simp: sim_def open_sim_def)
  then have ct: "CurTok t' = of_char CHR '')''" and lt: "LastChar t' = EOF"
    and fr: "built t' = built s'" "BinaryOperatorsInstalled s' \<longrightarrow> stderr t' = stderr s'"
    by (simp_all add: closed_sim_def common_def)
  define t2 where "t2 = snd (getNextToken t')"
  have t2: "t2 = t'\<lparr>CurTok := tok_eof\<rparr>"
    unfolding t2_def by (simp add: getNextToken_def gettok_at_EOF [OF lt])
  have pa: "ParseParenExpr (Suc n) t0 = Some (Some x, t2)"
    using e ct by (simp add: Let_def t1_def [symmetric] t2_def del: ParseExpression.simps)
  have pp: "ParsePrimary (Suc (Suc n)) t0 = Some (Some x, t2)"
    using c0 pa by (simp add: tok_identifier_def tok_number_def del: ParseParenExpr.simps)
  have g: "GetTokPrecendence t2 = (-1, t2)"
    by (simp add: GetTokPrecendence_def t2 isascii_def tok_eof_def)
  have b: "ParseBinOpRHS (Suc (Suc n)) 0 x t2 = Some (Some x, t2)"
    by (subst ParseBinOpRHS.simps(2)) (simp add: g)
  have "ParseExpression (Suc (Suc (Suc n))) t0 = Some (Some x, t2)"
    by (subst ParseExpression.simps(2)) (simp add: pp b del: ParsePrimary.simps ParseBinOpRHS.simps)
  moreover have "n + 3 = Suc (Suc (Suc n))" by simp
  ultimately have "ParseExpression (n + 3) t0 = Some (Some x, t2)" by (simp only:)
  then have "ParseExpression (n + 3 + k) t0 = Some (Some x, t2)"
    by (rule more_fuel_ParseExpression)
  with fr show ?thesis by (simp add: t0_def t2 del: parser_simps)
qed

lemma installed_stays_installed:
  assumes "ParseExpression n s = Some (r, s')" and "BinaryOperatorsInstalled s"
  shows "BinaryOperatorsInstalled s'"
proof -
  have "res_rel (\<lambda>s s'. BinaryOperatorsInstalled s \<longrightarrow> BinaryOperatorsInstalled s') s
     (ParseExpression n s)"
  proof (rule parser_preserves(5))
    show "BinaryOperatorsInstalled s \<longrightarrow> BinaryOperatorsInstalled (snd (GetTokPrecendence s))" for s
      by (auto simp: GetTokPrecendence_def BinopPrecedence_subscript_def BinaryOperatorsInstalled_def
            split: option.splits)
  qed (simp_all add: BinaryOperatorsInstalled_def make_unique_def fprintf_stderr_def)
  with assms show ?thesis by (simp add: res_rel_def)
qed

text \<open>
  C9, as the code has it. Start the process on the input \<open>e\<close>, with the operators
  installed or not, and let \<open>ParseExpression\<close> return a node with all of \<open>e\<close> consumed,
  where \<open>e\<close> does not end inside a comment. Then \<open>ParseExpression\<close> on \<^verbatim>\<open>(\<close>\<open>e\<close>\<^verbatim>\<open>)\<close>
  returns the identical node, also with all input consumed, and it constructs the same
  objects in the same order, so no wrapper. With the operators installed it also writes
  the same to standard error. Three more units of fuel pay for the calls around the inner
  expression, and any more change nothing.
\<close>

theorem parenthesised_expression_same_tree:
  assumes start: "start = primed \<or> start = installed"
    and run: "ParseExpression n (start e) = Some (Some x, s')"
    and all: "CurTok s' = tok_eof"
    and nocomment: "\<not> ends_in_comment False e"
  shows "\<exists>s''. ParseExpression (n + 3 + k) (start (''('' @ e @ '')'')) = Some (Some x, s'')
          \<and> CurTok s'' = tok_eof \<and> built s'' = built s'
          \<and> (BinaryOperatorsInstalled (start e) \<longrightarrow> stderr s'' = stderr s')"
proof -
  define i where "i = (if start = primed then initial_state e
                       else InstallBinaryOperators (initial_state e))"
  have fi: "LastChar i = of_char CHR '' ''" "stdin i = e"
    by (simp_all add: i_def InstallBinaryOperators_def initial_state_def)
  have ta: "tables_agree (BinopPrecedence i) (BinopPrecedence i)"
    by (simp add: i_def tables_agree_def InstallBinaryOperators_def initial_state_def
          BinaryOperatorsInstalled_def)
  have s0: "start e = snd (getNextToken i)"
    using start by (auto simp: i_def primed_def installed_def)
  have "initial_state (''('' @ e @ '')'') = (initial_state e)\<lparr>stdin := ''('' @ e @ '')''\<rparr>"
    by (simp add: initial_state_def)
  moreover have "InstallBinaryOperators (initial_state (''('' @ e @ '')''))
      = (InstallBinaryOperators (initial_state e))\<lparr>stdin := ''('' @ e @ '')''\<rparr>"
    by (simp add: InstallBinaryOperators_def initial_state_def BinaryOperatorsInstalled_def)
  ultimately have t0: "start (''('' @ e @ '')'') = snd (getNextToken (i\<lparr>stdin := ''('' @ e @ '')''\<rparr>))"
    using start by (auto simp: i_def primed_def installed_def)
  from run have run': "ParseExpression n (snd (getNextToken i)) = Some (Some x, s')"
    by (simp only: s0)
  from parenthesised_run [OF fi nocomment ta run' all, of k] obtain s''
    where r: "ParseExpression (n + 3 + k) (start (''('' @ e @ '')'')) = Some (Some x, s'')"
      and c: "CurTok s'' = tok_eof" "built s'' = built s'"
      and d: "BinaryOperatorsInstalled s' \<longrightarrow> stderr s'' = stderr s'"
    unfolding t0 [symmetric] by blast
  have "BinaryOperatorsInstalled s'" if "BinaryOperatorsInstalled (start e)"
    using run that by (rule installed_stays_installed)
  with r c d show ?thesis by blast
qed

theorem parenthesised_expression_same_tree_witness:
  "\<not> ends_in_comment False (''1#c'' @ [CHR 0x0A] @ ''+2*3'')
   \<and> (\<exists>s'. ParseExpression 5 (installed (''1#c'' @ [CHR 0x0A] @ ''+2*3'')) =
          Some (Some (BinaryExprAST CHR ''+'' (NumberExprAST (strtod ''1''))
                        (BinaryExprAST CHR ''*'' (NumberExprAST (strtod ''2''))
                                                 (NumberExprAST (strtod ''3'')))), s')
        \<and> CurTok s' = tok_eof)
   \<and> (\<exists>s''. ParseExpression (5 + 3 + 0) (installed (''('' @ (''1#c'' @ [CHR 0x0A] @ ''+2*3'') @ '')'')) =
          Some (Some (BinaryExprAST CHR ''+'' (NumberExprAST (strtod ''1''))
                        (BinaryExprAST CHR ''*'' (NumberExprAST (strtod ''2''))
                                                 (NumberExprAST (strtod ''3'')))), s'')
        \<and> CurTok s'' = tok_eof)
   \<and> \<not> ends_in_comment False ''f(1)''
   \<and> (\<exists>s'. ParseExpression 7 (primed ''f(1)'') =
          Some (Some (CallExprAST ''f'' [NumberExprAST (strtod ''1'')]), s')
        \<and> CurTok s' = tok_eof)
   \<and> (\<exists>s''. ParseExpression (7 + 3 + 0) (primed (''('' @ ''f(1)'' @ '')'')) =
          Some (Some (CallExprAST ''f'' [NumberExprAST (strtod ''1'')]), s'')
        \<and> CurTok s'' = tok_eof)"
proof -
  have h: "\<not> ends_in_comment False (''1#c'' @ [CHR 0x0A] @ ''+2*3'')" by simp
  obtain s' where r: "ParseExpression 5 (installed (''1#c'' @ [CHR 0x0A] @ ''+2*3'')) =
          Some (Some (BinaryExprAST CHR ''+'' (NumberExprAST (strtod ''1''))
                        (BinaryExprAST CHR ''*'' (NumberExprAST (strtod ''2''))
                                                 (NumberExprAST (strtod ''3'')))), s')"
    and c: "CurTok s' = tok_eof"
    by (simp add: lexer_eval parser_eval)
  have h2: "\<not> ends_in_comment False ''f(1)''" by simp
  obtain u' where r2: "ParseExpression 7 (primed ''f(1)'') =
          Some (Some (CallExprAST ''f'' [NumberExprAST (strtod ''1'')]), u')"
    and c2: "CurTok u' = tok_eof"
    by (simp add: lexer_eval parser_eval)
  have a: "installed = primed \<or> installed = installed" by simp
  have b: "primed = primed \<or> primed = installed" by simp
  from parenthesised_expression_same_tree [OF a r c h, of 0]
    parenthesised_expression_same_tree [OF b r2 c2 h2, of 0] h r c h2 r2 c2
  show ?thesis by blast
qed

text \<open>
  C9 as stated fails. \<open>ParseExpression\<close> accepts \<^verbatim>\<open>1#c\<close>, consuming it to the end, but
  in \<^verbatim>\<open>(1#c)\<close> the comment runs over the closing parenthesis and the parse fails. It
  also accepts \<^verbatim>\<open>1 2\<close>, as the expression 1 with 2 left over, and \<^verbatim>\<open>(1 2)\<close> fails.
\<close>

theorem parenthesised_input_can_fail:
  "map_option fst (ParseExpression 8 (installed ''1#c'')) = Some (Some (NumberExprAST (strtod ''1'')))
   \<and> map_option (\<lambda>r. CurTok (snd r)) (ParseExpression 8 (installed ''1#c'')) = Some tok_eof
   \<and> map_option fst (ParseExpression 8 (installed ''(1#c)'')) = Some None
   \<and> map_option fst (ParseExpression 8 (installed ''1 2'')) = Some (Some (NumberExprAST (strtod ''1'')))
   \<and> map_option fst (ParseExpression 8 (installed ''(1 2)'')) = Some None"
  by (simp add: lexer_eval parser_eval)

end
